theory Spec2Isabelle
  imports Main "HOL-Library.AList" "HOL-Library.Sublist"
begin

section \<open>Data model of plum.py\<close>

text \<open>
  The module keeps a dictionary of words in a trie. A word is stored between two marker
  characters: \<open>_FIRST\<close> in front and \<open>_LAST\<close> behind. The dot is the wildcard of
  \<open>contains\<close>. Python strings are modelled as \<open>string\<close> (lists of \<open>char\<close>); a string of
  length one, such as a letter or a dictionary key, is a \<open>char\<close>.
\<close>

definition FIRST :: char where
  "FIRST = CHR ''^''"

definition LAST :: char where
  "LAST = CHR ''$''"

definition DOT :: char where
  "DOT = CHR ''.''"

text \<open>
  Every way a call can end by raising is a value. \<open>WordsError\<close> is the module's own
  exception class with its message; the other three are the Python exceptions that the
  statements of \<open>_Trie\<close> could raise: a failed \<open>assert\<close>, an index past the end of a
  string, a missing dictionary key.
\<close>

datatype error = WordsError string | AssertionError | IndexError | KeyError

type_synonym 'a result = "error + 'a"

definition BadInputLetters :: error where
  "BadInputLetters = WordsError ''input must only contain lowercase letters a-z''"

definition BadInputLettersAndDot :: error where
  "BadInputLettersAndDot =
     WordsError (''input must only contain lowercase letters a-z and dots ''
                 @ [CHR 0x27, CHR ''.'', CHR 0x27])"

text \<open>
  Class \<open>_Trie\<close>: the field \<open>_letter\<close> and the dictionary \<open>_entry\<close> from letters to
  child nodes. A Python dictionary keeps its keys in insertion order and the iterations in
  \<open>contains\<close> and \<open>_get_all_suffixes\<close> run over it in that order, so \<open>_entry\<close> is an
  association list. \<open>__init__\<close> asserts that the letter has length one, which the type
  \<open>char\<close> expresses.
\<close>

datatype trie = Trie (letter: char) (entry: "(char \<times> trie) list")

section \<open>The methods of \<open>_Trie\<close>\<close>

text \<open>
  \<open>_Trie.add_word\<close> changes the node in place; the model returns the outcome together
  with the node as it is when the call ends, also when it ends by raising.
  \<open>word[0]\<close> raises \<open>IndexError\<close> on the empty string. The test
  \<open>left_letter not in self._entry\<close> is \<open>map_of es left_letter = None\<close>; the assignment
  \<open>self._entry[left_letter] = _Trie(left_letter)\<close> is \<open>AList.update\<close>, which replaces the
  value of a present key where it stands and puts a new key at the end, as a Python
  dictionary does. The child is then changed in place by the recursive call, which is
  the second \<open>AList.update\<close>.
\<close>

fun trie_add_word :: "trie \<Rightarrow> string \<Rightarrow> unit result \<times> trie" where
  "trie_add_word (Trie l es) [] = (Inl IndexError, Trie l es)"
| "trie_add_word (Trie l es) (w0 # rest) =
     (if w0 \<noteq> l then (Inl AssertionError, Trie l es)
      else case rest of
        [] \<Rightarrow> (Inr (), Trie l es)
      | left_letter # _ \<Rightarrow>
          let right_word = rest;
              es1 = (if map_of es left_letter = None
                     then AList.update left_letter (Trie left_letter []) es
                     else es)
          in case map_of es1 left_letter of
               None \<Rightarrow> (Inl KeyError, Trie l es1)
             | Some child \<Rightarrow>
                 (case trie_add_word child right_word of
                    (r, child') \<Rightarrow> (r, Trie l (AList.update left_letter child' es1))))"

text \<open>
  \<open>any(self._entry[c].contains(right_word) for c in self._entry)\<close>: the children are
  asked in dictionary order, the first \<open>True\<close> ends the loop, and an exception in a
  child ends it as well.
\<close>

fun any_contains :: "('n \<Rightarrow> bool result) \<Rightarrow> (char \<times> 'n) list \<Rightarrow> bool result" where
  "any_contains f [] = Inr False"
| "any_contains f ((c, child) # es) =
     (case f child of
        Inl e \<Rightarrow> Inl e
      | Inr True \<Rightarrow> Inr True
      | Inr False \<Rightarrow> any_contains f es)"

text \<open>
  \<open>_Trie.contains\<close> has no assignment, so it returns a value only. On the empty string
  \<open>len(word) == 1\<close> is false and \<open>word[1]\<close> raises \<open>IndexError\<close>.
\<close>

fun trie_contains :: "trie \<Rightarrow> string \<Rightarrow> bool result" where
  "trie_contains (Trie l es) [] = Inl IndexError"
| "trie_contains (Trie l es) [w0] = Inr (w0 = l)"
| "trie_contains (Trie l es) (w0 # left_letter # rest) =
     (let right_word = left_letter # rest in
      if left_letter \<noteq> DOT then
        (case map_of es left_letter of
           None \<Rightarrow> Inr False
         | Some child \<Rightarrow> trie_contains child right_word)
      else any_contains (\<lambda>child. trie_contains child right_word) es)"

text \<open>
  \<open>_Trie._get_all_suffixes\<close>: the loop over \<open>self._entry\<close> appends the empty string for
  the key \<open>_LAST\<close> and, for any other key, the suffixes of that child with the key in
  front.
\<close>

fun get_all_suffixes :: "trie \<Rightarrow> string list" where
  "get_all_suffixes (Trie l es) =
     concat (map (\<lambda>(c, child). if c = LAST then [[]]
                                 else map ((#) c) (get_all_suffixes child)) es)"

text \<open>
  \<open>_Trie.search\<close>: \<open>assert len(word) >= 1\<close> fails on the empty string and \<open>word[1]\<close>
  raises \<open>IndexError\<close> on a string of length one. The parameter \<open>prefix\<close> of the source
  is called \<open>pfx\<close> here.
\<close>

fun trie_search :: "trie \<Rightarrow> string \<Rightarrow> string \<Rightarrow> string list result" where
  "trie_search (Trie l es) [] pfx = Inl AssertionError"
| "trie_search (Trie l es) [w0] pfx = Inl IndexError"
| "trie_search (Trie l es) (w0 # left_letter # rest) pfx =
     (let right_word = left_letter # rest in
      if left_letter \<noteq> LAST then
        (case map_of es left_letter of
           None \<Rightarrow> Inr []
         | Some child \<Rightarrow> trie_search child right_word pfx)
      else Inr (map (\<lambda>s. pfx @ s) (get_all_suffixes (Trie l es))))"

section \<open>The class \<open>Words\<close>\<close>

text \<open>
  The two patterns are \<open>^[a-z]*$\<close> and \<open>^[a-z\.]*$\<close>, used with \<open>re.match\<close> and no flag.
  In Python's \<open>re\<close> the anchor \<open>$\<close> matches at the end of the string and also just before
  a newline that is the last character of the string. So \<open>re.match\<close> succeeds exactly on
  the strings that consist of characters of the class, optionally followed by one final
  newline. \<open>re_match_class_star cls\<close> is that test for the class \<open>cls\<close>.
\<close>

definition lower_letter :: "char \<Rightarrow> bool" where
  "lower_letter c = (97 \<le> (of_char c :: nat) \<and> (of_char c :: nat) \<le> 122)"

definition lower_letter_or_dot :: "char \<Rightarrow> bool" where
  "lower_letter_or_dot c = (lower_letter c \<or> c = DOT)"

fun re_match_class_star :: "(char \<Rightarrow> bool) \<Rightarrow> string \<Rightarrow> bool" where
  "re_match_class_star cls [] = True"
| "re_match_class_star cls [c] = (cls c \<or> c = CHR 0x0A)"
| "re_match_class_star cls (c # d # s) = (cls c \<and> re_match_class_star cls (d # s))"

definition LETTERS_PATTERN :: "string \<Rightarrow> bool" where
  "LETTERS_PATTERN word = re_match_class_star lower_letter word"

definition LETTERS_AND_DOT_PATTERN :: "string \<Rightarrow> bool" where
  "LETTERS_AND_DOT_PATTERN word = re_match_class_star lower_letter_or_dot word"

record words =
  w_trie :: trie

definition Words_init :: words where
  "Words_init = \<lparr>w_trie = Trie FIRST []\<rparr>"

definition pad_word :: "string \<Rightarrow> string" where
  "pad_word word = [FIRST] @ word @ [LAST]"

text \<open>
  Each public method takes the object and returns its outcome and the object after the
  call. A method that raises returns \<open>Inl\<close> of the exception.
\<close>

definition add_word :: "words \<Rightarrow> string \<Rightarrow> unit result \<times> words" where
  "add_word self word =
     (if \<not> LETTERS_PATTERN word then (Inl BadInputLetters, self)
      else case trie_add_word (w_trie self) (pad_word word) of
             (r, t') \<Rightarrow> (r, self\<lparr>w_trie := t'\<rparr>))"

definition contains :: "words \<Rightarrow> string \<Rightarrow> bool result \<times> words" where
  "contains self word =
     (if \<not> LETTERS_AND_DOT_PATTERN word then (Inl BadInputLettersAndDot, self)
      else (trie_contains (w_trie self) (pad_word word), self))"

definition search :: "words \<Rightarrow> string \<Rightarrow> string list result \<times> words" where
  "search self word =
     (if \<not> LETTERS_PATTERN word then (Inl BadInputLetters, self)
      else (trie_search (w_trie self) (pad_word word) word, self))"

section \<open>Dictionary states\<close>

text \<open>
  \<open>dict_state s ws\<close>: the object \<open>s\<close> is what some sequence of public calls on a new
  \<open>Words()\<close> leaves, and \<open>ws\<close> lists, in order, the arguments of the calls of \<open>add_word\<close>
  that returned normally. Calls that raise and calls of \<open>contains\<close> and \<open>search\<close> may
  stand anywhere in the sequence.
\<close>

inductive dict_state :: "words \<Rightarrow> string list \<Rightarrow> bool" where
  ds_init: "dict_state Words_init []"
| ds_add: "dict_state s ws \<Longrightarrow> add_word s w = (Inr (), s') \<Longrightarrow> dict_state s' (ws @ [w])"
| ds_add_raise: "dict_state s ws \<Longrightarrow> add_word s w = (Inl e, s') \<Longrightarrow> dict_state s' ws"
| ds_contains: "dict_state s ws \<Longrightarrow> contains s p = (r, s') \<Longrightarrow> dict_state s' ws"
| ds_search: "dict_state s ws \<Longrightarrow> search s p = (r', s') \<Longrightarrow> dict_state s' ws"

text \<open>The object after calling \<open>add_word\<close> on each element of a list, starting from new.\<close>

definition after_adds :: "string list \<Rightarrow> words" where
  "after_adds ws = foldl (\<lambda>s w. snd (add_word s w)) Words_init ws"

definition example_words :: words where
  "example_words = after_adds [''mad'', ''madmax'', '''']"

section \<open>Notions used to state the properties\<close>

text \<open>
  The specification's reading of a pattern: \<open>w\<close> has the length of \<open>p\<close> and carries the
  same character wherever \<open>p\<close> has a letter.
\<close>

definition agrees_with_pattern :: "string \<Rightarrow> string \<Rightarrow> bool" where
  "agrees_with_pattern p w =
     (length w = length p \<and> (\<forall>i < length p. lower_letter (p ! i) \<longrightarrow> w ! i = p ! i))"

text \<open>
  The relation the code decides: position by position, the pattern has the dot or the
  character of the word.
\<close>

definition pattern_matches :: "string \<Rightarrow> string \<Rightarrow> bool" where
  "pattern_matches p w = list_all2 (\<lambda>pc wc. pc = DOT \<or> pc = wc) p w"

text \<open>
  The invariant of a node: the keys of \<open>_entry\<close> are distinct (it is a dictionary), the
  child under a key carries that key as its letter, the child under \<open>_LAST\<close> has no
  children, and every child satisfies the invariant.
\<close>

fun trie_inv :: "trie \<Rightarrow> bool" where
  "trie_inv (Trie l es) =
     (distinct (map fst es) \<and>
      (\<forall>(c, child) \<in> set es.
         letter child = c \<and> (c = LAST \<longrightarrow> entry child = []) \<and> trie_inv child))"

text \<open>The words below a node, without their end marker.\<close>

definition stored :: "trie \<Rightarrow> string set" where
  "stored t = set (get_all_suffixes t)"

definition child_or_new :: "(char \<times> trie) list \<Rightarrow> char \<Rightarrow> trie" where
  "child_or_new es k = (case map_of es k of None \<Rightarrow> Trie k [] | Some child \<Rightarrow> child)"

definition suffix_tag :: "string \<Rightarrow> char" where
  "suffix_tag s = (case s of [] \<Rightarrow> LAST | k # _ \<Rightarrow> k)"

definition words_inv :: "words \<Rightarrow> string list \<Rightarrow> bool" where
  "words_inv s ws =
     (letter (w_trie s) = FIRST \<and> trie_inv (w_trie s) \<and> stored (w_trie s) = set ws \<and>
      (\<forall>w \<in> set ws. LETTERS_PATTERN w))"

section \<open>The same methods on a store of objects\<close>

text \<open>
  In Python a \<open>_Trie\<close> is an object and \<open>_entry\<close> holds references to other
  objects; \<open>add_word\<close> changes objects in place. To speak about which object is
  referenced from where, the objects are kept in a store: a list of nodes in which the
  address of an object is its index, and \<open>_Trie(letter)\<close> puts a new object at the end.
  The program never deletes an object. A reference held by the program always denotes an
  object of the store; the invariant below carries that fact.
\<close>

text \<open>
  An object of class \<open>_Trie\<close>: its letter and its dictionary from letters to the
  addresses of the children.
\<close>

record node =
  n_letter :: char
  n_entry :: "(char \<times> nat) list"

type_synonym heap = "node list"

text \<open>
  \<open>_Trie.add_word\<close> on the store: \<open>self\<close> is the address of the node. A new child is
  put at the address \<open>length h\<close> and entered into the dictionary of \<open>self\<close>; the
  recursive call then works on the child where it lies, so no entry of \<open>self\<close> is
  written a second time.
\<close>

fun heap_add_word :: "heap \<Rightarrow> nat \<Rightarrow> string \<Rightarrow> unit result \<times> heap" where
  "heap_add_word h self [] = (Inl IndexError, h)"
| "heap_add_word h self (w0 # rest) =
     (if w0 \<noteq> n_letter (h ! self) then (Inl AssertionError, h)
      else case rest of
        [] \<Rightarrow> (Inr (), h)
      | left_letter # _ \<Rightarrow>
          let right_word = rest;
              h1 = (if map_of (n_entry (h ! self)) left_letter = None
                    then (h @ [\<lparr>n_letter = left_letter, n_entry = []\<rparr>])
                           [self := (h ! self)\<lparr>n_entry :=
                              AList.update left_letter (length h) (n_entry (h ! self))\<rparr>]
                    else h)
          in case map_of (n_entry (h1 ! self)) left_letter of
               None \<Rightarrow> (Inl KeyError, h1)
             | Some child \<Rightarrow> heap_add_word h1 child right_word)"

text \<open>\<open>_Trie.contains\<close> on the store; it writes nothing.\<close>

fun heap_contains :: "heap \<Rightarrow> nat \<Rightarrow> string \<Rightarrow> bool result" where
  "heap_contains h self [] = Inl IndexError"
| "heap_contains h self [w0] = Inr (w0 = n_letter (h ! self))"
| "heap_contains h self (w0 # left_letter # rest) =
     (let right_word = left_letter # rest in
      if left_letter \<noteq> DOT then
        (case map_of (n_entry (h ! self)) left_letter of
           None \<Rightarrow> Inr False
         | Some child \<Rightarrow> heap_contains h child right_word)
      else any_contains (\<lambda>child. heap_contains h child right_word) (n_entry (h ! self)))"

text \<open>
  \<open>_Trie._get_all_suffixes\<close> on the store follows references, and nothing in the
  function itself bounds how long. The first argument is fuel: the number of nested calls
  allowed, \<open>None\<close> when it is used up. Lemma \<open>H_search_returns\<close> below shows that in
  every state the public methods can reach the fuel given by \<open>H_search\<close> is enough.
\<close>

fun heap_get_all_suffixes :: "nat \<Rightarrow> heap \<Rightarrow> nat \<Rightarrow> string list option" where
  "heap_get_all_suffixes 0 h self = None"
| "heap_get_all_suffixes (Suc fuel) h self =
     map_option concat
       (those (map (\<lambda>(c, child). if c = LAST then Some [[]]
                      else map_option (map ((#) c)) (heap_get_all_suffixes fuel h child))
                 (n_entry (h ! self))))"

fun heap_search :: "nat \<Rightarrow> heap \<Rightarrow> nat \<Rightarrow> string \<Rightarrow> string \<Rightarrow> string list result option" where
  "heap_search fuel h self [] pfx = Some (Inl AssertionError)"
| "heap_search fuel h self [w0] pfx = Some (Inl IndexError)"
| "heap_search fuel h self (w0 # left_letter # rest) pfx =
     (let right_word = left_letter # rest in
      if left_letter \<noteq> LAST then
        (case map_of (n_entry (h ! self)) left_letter of
           None \<Rightarrow> Some (Inr [])
         | Some child \<Rightarrow> heap_search fuel h child right_word pfx)
      else map_option (\<lambda>ss. Inr (map (\<lambda>s. pfx @ s) ss)) (heap_get_all_suffixes fuel h self))"

text \<open>
  The class \<open>Words\<close> on the store: the store and the reference \<open>_trie\<close>. \<open>Words()\<close>
  creates the root as the first object.
\<close>

record hwords =
  hw_store :: heap
  hw_trie :: nat

definition H_init :: hwords where
  "H_init = \<lparr>hw_store = [\<lparr>n_letter = FIRST, n_entry = []\<rparr>], hw_trie = 0\<rparr>"

definition H_add_word :: "hwords \<Rightarrow> string \<Rightarrow> unit result \<times> hwords" where
  "H_add_word self word =
     (if \<not> LETTERS_PATTERN word then (Inl BadInputLetters, self)
      else case heap_add_word (hw_store self) (hw_trie self) (pad_word word) of
             (r, h') \<Rightarrow> (r, self\<lparr>hw_store := h'\<rparr>))"

definition H_contains :: "hwords \<Rightarrow> string \<Rightarrow> bool result \<times> hwords" where
  "H_contains self word =
     (if \<not> LETTERS_AND_DOT_PATTERN word then (Inl BadInputLettersAndDot, self)
      else (heap_contains (hw_store self) (hw_trie self) (pad_word word), self))"

definition H_search :: "hwords \<Rightarrow> string \<Rightarrow> string list result option \<times> hwords" where
  "H_search self word =
     (if \<not> LETTERS_PATTERN word then (Some (Inl BadInputLetters), self)
      else (heap_search (length (hw_store self)) (hw_store self) (hw_trie self)
              (pad_word word) word, self))"

text \<open>The states that public calls on a new \<open>Words()\<close> can reach.\<close>

inductive hdict_state :: "hwords \<Rightarrow> bool" where
  hs_init: "hdict_state H_init"
| hs_add: "hdict_state s \<Longrightarrow> hdict_state (snd (H_add_word s x))"
| hs_contains: "hdict_state s \<Longrightarrow> hdict_state (snd (H_contains s x))"
| hs_search: "hdict_state s \<Longrightarrow> hdict_state (snd (H_search s x))"

text \<open>
  \<open>heap_child h\<close> relates an object to each object its dictionary refers to;
  \<open>heap_reach h r\<close> are the objects reachable from \<open>r\<close>.
\<close>

definition heap_child :: "heap \<Rightarrow> (nat \<times> nat) set" where
  "heap_child h = {(a, b). a < length h \<and> b \<in> snd ` set (n_entry (h ! a))}"

definition heap_reach :: "heap \<Rightarrow> nat \<Rightarrow> nat set" where
  "heap_reach h r = {b. (r, b) \<in> (heap_child h)\<^sup>*}"

text \<open>
  The structure the specification describes. The root carries \<open>_FIRST\<close>. Every
  reachable object is in the store, its keys are distinct and the child under a key
  carries the key as its letter. Every reachable object other than the root is referred to
  from exactly one reachable object under exactly one key, nothing refers to the root,
  and no object reaches itself.
\<close>

definition trie_structure :: "hwords \<Rightarrow> bool" where
  "trie_structure s =
     (let h = hw_store s; r = hw_trie s; R = heap_reach h r in
        r < length h \<and> n_letter (h ! r) = FIRST \<and>
        (\<forall>a \<in> R. a < length h \<and> distinct (map fst (n_entry (h ! a))) \<and>
                  (\<forall>(c, b) \<in> set (n_entry (h ! a)). n_letter (h ! b) = c)) \<and>
        (\<forall>b \<in> R. b \<noteq> r \<longrightarrow> (\<exists>!p. fst p \<in> R \<and> (snd p, b) \<in> set (n_entry (h ! fst p)))) \<and>
        (\<forall>a \<in> R. (a, r) \<notin> heap_child h) \<and>
        (\<forall>a \<in> R. (a, a) \<notin> (heap_child h)\<^sup>+))"

text \<open>
  The invariant used in the proofs, over all objects of the store: in every dictionary
  the keys are distinct and the addresses are distinct; a child lies in the store at a
  larger address than its parent and carries its key as letter; two objects share no
  child; every object but the first is a child.
\<close>

definition heap_inv :: "heap \<Rightarrow> bool" where
  "heap_inv h =
     ((\<forall>a < length h.
         distinct (map fst (n_entry (h ! a))) \<and> distinct (map snd (n_entry (h ! a))) \<and>
         (\<forall>(c, b) \<in> set (n_entry (h ! a)). a < b \<and> b < length h \<and> n_letter (h ! b) = c)) \<and>
      (\<forall>a < length h. \<forall>a' < length h. a \<noteq> a' \<longrightarrow>
         snd ` set (n_entry (h ! a)) \<inter> snd ` set (n_entry (h ! a')) = {}) \<and>
      (\<forall>b < length h. 0 < b \<longrightarrow> (\<exists>a < length h. b \<in> snd ` set (n_entry (h ! a)))))"

definition hwords_inv :: "hwords \<Rightarrow> bool" where
  "hwords_inv s =
     (heap_inv (hw_store s) \<and> hw_trie s = 0 \<and> hw_store s \<noteq> [] \<and>
      n_letter (hw_store s ! 0) = FIRST)"

text \<open>The store after \<open>self._entry[k] = _Trie(k)\<close> for a key \<open>k\<close> that is not present.\<close>

definition alloc_child :: "heap \<Rightarrow> nat \<Rightarrow> char \<Rightarrow> heap" where
  "alloc_child h a k =
     (h @ [\<lparr>n_letter = k, n_entry = []\<rparr>])
        [a := (h ! a)\<lparr>n_entry := AList.update k (length h) (n_entry (h ! a))\<rparr>]"

text \<open>
  The tree a node of the store stands for. The test \<open>a < b \<and> b < length h\<close> makes the
  recursion end on every store; under the invariant it always holds (lemma
  \<open>heap_abs_unfold\<close>). With it the methods on the store can be compared with the
  methods on trees given first: they return the same, and \<open>add_word\<close> leaves a store
  that stands for the tree the other \<open>add_word\<close> returns (lemmas \<open>H_add_word_refines\<close>,
  \<open>H_contains_refines\<close>, \<open>H_search_refines\<close>).
\<close>

function heap_abs :: "heap \<Rightarrow> nat \<Rightarrow> trie" where
  "heap_abs h a =
     Trie (n_letter (h ! a))
       (map (\<lambda>(c, b). (c, if a < b \<and> b < length h then heap_abs h b else Trie c []))
          (n_entry (h ! a)))"
  by pat_completeness auto
termination
  by (relation "measure (\<lambda>(h, a). length h - a)") auto

definition abs_words :: "hwords \<Rightarrow> words" where
  "abs_words s = \<lparr>w_trie = heap_abs (hw_store s) (hw_trie s)\<rparr>"

text \<open>An example: the store after inserting \<open>ab\<close> and \<open>ac\<close>.\<close>

definition H_example :: hwords where
  "H_example = snd (H_add_word (snd (H_add_word H_init ''ab'')) ''ac'')"

section \<open>Lemmas about the trie\<close>


lemma LAST_neq_DOT [simp]: "LAST \<noteq> DOT" "DOT \<noteq> LAST"
  by (simp_all add: LAST_def DOT_def)

lemma stored_Trie:
  "stored (Trie l es) =
     (\<Union>(c, child) \<in> set es. if c = LAST then {[]} else (#) c ` stored child)"
proof -
  have "set (case x of (c, child) \<Rightarrow> if c = LAST then [[]] else map ((#) c) (get_all_suffixes child))
        = (case x of (c, child) \<Rightarrow> if c = LAST then {[]} else (#) c ` stored child)" for x
    by (cases x) (simp add: stored_def)
  then show ?thesis by (simp add: stored_def)
qed

lemma Nil_in_stored: "[] \<in> stored (Trie l es) \<longleftrightarrow> LAST \<in> fst ` set es"
  by (force simp: stored_Trie split: if_splits)

lemma LAST_Cons_notin_stored: "LAST # s \<notin> stored t"
  by (cases t) (auto simp: stored_Trie split: if_splits)

lemma Cons_in_stored:
  assumes "distinct (map fst es)" "c \<noteq> LAST"
  shows "c # s \<in> stored (Trie l es) \<longleftrightarrow> (\<exists>child. map_of es c = Some child \<and> s \<in> stored child)"
proof -
  have "c # s \<in> stored (Trie l es) \<longleftrightarrow> (\<exists>child. (c, child) \<in> set es \<and> s \<in> stored child)"
    using assms(2) by (force simp: stored_Trie split: if_splits)
  then show ?thesis using assms(1) by simp
qed

lemma stored_leaf [simp]: "stored (Trie l []) = {}"
  by (simp add: stored_Trie)

lemma trie_add_word_Nil: "trie_add_word t [] = (Inl IndexError, t)"
  by (cases t) simp

lemma trie_add_word_assert: "w0 \<noteq> letter t \<Longrightarrow> trie_add_word t (w0 # r) = (Inl AssertionError, t)"
  by (cases t) simp

lemma trie_add_word_step:
  "trie_add_word (Trie l es) (l # k # r) =
     (case trie_add_word (child_or_new es k) (k # r) of
        (res, child') \<Rightarrow> (res, Trie l (AList.update k child' es)))"
  by (auto simp: trie_add_word.simps child_or_new_def update_conv' split: option.splits prod.splits)

lemma trie_add_word_single: "trie_add_word t [letter t] = (Inr (), t)"
  by (cases t) (simp add: trie_add_word.simps)

declare trie_add_word.simps [simp del]

lemma trie_inv_child:
  assumes "trie_inv (Trie l es)" "map_of es k = Some child"
  shows "letter child = k" "trie_inv child" "k = LAST \<Longrightarrow> entry child = []"
  using assms by (auto dest!: map_of_SomeD)

lemma child_or_new_props:
  assumes "trie_inv (Trie l es)"
  shows "letter (child_or_new es k) = k" "trie_inv (child_or_new es k)"
    "k = LAST \<Longrightarrow> entry (child_or_new es k) = []"
  using assms trie_inv_child[OF assms]
  by (auto simp: child_or_new_def split: option.splits)

lemma stored_child_or_new:
  assumes "distinct (map fst es)" "k \<noteq> LAST"
  shows "s \<in> stored (child_or_new es k) \<longleftrightarrow> k # s \<in> stored (Trie l es)"
proof (cases "map_of es k")
  case None
  then show ?thesis using Cons_in_stored[OF assms, of s l] by (simp add: child_or_new_def)
next
  case (Some child)
  then show ?thesis using Cons_in_stored[OF assms, of s l] by (simp add: child_or_new_def)
qed

lemma set_AList_update: "set (AList.update k v es) \<subseteq> insert (k, v) (set es)"
  by (induction es) (auto split: if_splits)

lemma trie_inv_update:
  assumes "trie_inv (Trie l es)" "letter child = k" "trie_inv child" "k = LAST \<Longrightarrow> entry child = []"
  shows "trie_inv (Trie l (AList.update k child es))"
proof -
  have "\<And>a b. (a, b) \<in> set (AList.update k child es) \<Longrightarrow> (a, b) = (k, child) \<or> (a, b) \<in> set es"
    using set_AList_update by fastforce
  then show ?thesis using assms by (fastforce simp: distinct_update)
qed

lemma stored_update:
  assumes "distinct (map fst es)"
  shows "stored (Trie l (AList.update k child es)) =
     (if k = LAST then insert [] (stored (Trie l es))
      else {x \<in> stored (Trie l es). \<forall>s. x \<noteq> k # s} \<union> (#) k ` stored child)"
proof (rule set_eqI)
  fix x
  have d: "distinct (map fst (AList.update k child es))"
    using assms by (simp add: distinct_update)
  show "x \<in> stored (Trie l (AList.update k child es)) \<longleftrightarrow>
        x \<in> (if k = LAST then insert [] (stored (Trie l es))
      else {x \<in> stored (Trie l es). \<forall>s. x \<noteq> k # s} \<union> (#) k ` stored child)"
  proof (cases x)
    case Nil
    then show ?thesis by (auto simp: Nil_in_stored dom_update)
  next
    case (Cons c s)
    show ?thesis
    proof (cases "c = LAST")
      case True
      then show ?thesis using Cons by (auto simp: LAST_Cons_notin_stored)
    next
      case False
      then show ?thesis using Cons assms d
        by (auto simp: Cons_in_stored update_conv')
    qed
  qed
qed

lemma trie_add_word_ok:
  assumes "trie_inv t" "LAST \<notin> set w"
  shows "\<exists>t'. trie_add_word t (letter t # w @ [LAST]) = (Inr (), t') \<and> trie_inv t' \<and>
           letter t' = letter t \<and> stored t' = insert w (stored t)"
  using assms
proof (induction w arbitrary: t)
  case Nil
  obtain l es where t: "t = Trie l es" by (cases t)
  let ?c = "child_or_new es LAST"
  have c: "letter ?c = LAST" "trie_inv ?c" "entry ?c = []"
    using child_or_new_props[of l es LAST] Nil.prems t by auto
  have "trie_add_word ?c [LAST] = (Inr (), ?c)"
    using trie_add_word_single[of ?c] c by simp
  then have r: "trie_add_word t [letter t, LAST] = (Inr (), Trie l (AList.update LAST ?c es))"
    by (simp add: t trie_add_word_step)
  have "trie_inv (Trie l (AList.update LAST ?c es))"
    using trie_inv_update[of l es ?c LAST] c Nil.prems t by simp
  moreover have "stored (Trie l (AList.update LAST ?c es)) = insert [] (stored t)"
    using Nil.prems t by (simp add: stored_update)
  ultimately show ?case using r t by simp
next
  case (Cons k w)
  obtain l es where t: "t = Trie l es" by (cases t)
  let ?c = "child_or_new es k"
  have k: "k \<noteq> LAST" "LAST \<notin> set w" using Cons.prems by auto
  have c: "letter ?c = k" "trie_inv ?c"
    using child_or_new_props[of l es k] Cons.prems t by auto
  from Cons.IH[OF c(2) k(2)] c(1) obtain c' where
    c': "trie_add_word ?c (k # w @ [LAST]) = (Inr (), c')" "trie_inv c'" "letter c' = k"
      "stored c' = insert w (stored ?c)"
    by auto
  have r: "trie_add_word t (letter t # (k # w) @ [LAST]) = (Inr (), Trie l (AList.update k c' es))"
    using c'(1) by (simp add: t trie_add_word_step)
  have d: "distinct (map fst es)" using Cons.prems t by simp
  have "trie_inv (Trie l (AList.update k c' es))"
    using trie_inv_update[of l es c' k] c' k Cons.prems t by simp
  moreover have "stored (Trie l (AList.update k c' es)) = insert (k # w) (stored t)"
    using k d c'(4) stored_child_or_new[OF d k(1), of _ l]
    by (auto simp: stored_update t)
  ultimately show ?case using r t by simp
qed

lemma any_contains_eq:
  assumes "\<And>c child. (c, child) \<in> set es \<Longrightarrow> f child = Inr (P child)"
  shows "any_contains f es = Inr (\<exists>(c, child) \<in> set es. P child)"
  using assms
proof (induction es)
  case Nil
  then show ?case by simp
next
  case (Cons e es)
  obtain c child where e: "e = (c, child)" by (cases e)
  have h: "f child = Inr (P child)" using Cons.prems[of c child] e by simp
  have "any_contains f es = Inr (\<exists>(c, child) \<in> set es. P child)"
  proof (rule Cons.IH)
    fix c' child' assume "(c', child') \<in> set es"
    then show "f child' = Inr (P child')" using Cons.prems[of c' child'] by simp
  qed
  then show ?case using h by (cases "P child") (simp_all add: e)
qed

lemma pattern_matches_Nil [simp]: "pattern_matches [] w \<longleftrightarrow> w = []"
  by (simp add: pattern_matches_def)

lemma pattern_matches_Cons:
  "pattern_matches (c # p) w \<longleftrightarrow> (\<exists>d w'. w = d # w' \<and> (c = DOT \<or> c = d) \<and> pattern_matches p w')"
  by (auto simp: pattern_matches_def list_all2_Cons1)

lemma trie_contains_end:
  assumes "trie_inv t"
  shows "trie_contains t [x, LAST] = Inr ([] \<in> stored t)"
proof -
  obtain l es where t: "t = Trie l es" by (cases t)
  show ?thesis
  proof (cases "map_of es LAST")
    case None
    then have "LAST \<notin> fst ` set es" by (simp add: map_of_eq_None_iff)
    then show ?thesis using None by (simp add: t Nil_in_stored)
  next
    case (Some child)
    then have "letter child = LAST" using trie_inv_child(1) assms t by blast
    moreover have "LAST \<in> fst ` set es" using Some by (metis map_of_eq_None_iff option.distinct(1))
    ultimately show ?thesis using Some by (cases child) (simp add: t Nil_in_stored)
  qed
qed

lemma trie_contains_correct:
  assumes "trie_inv t" "LAST \<notin> set p"
  shows "trie_contains t (x # p @ [LAST]) = Inr (\<exists>w \<in> stored t. pattern_matches p w)"
  using assms
proof (induction p arbitrary: t x)
  case Nil
  then show ?case by (simp add: trie_contains_end)
next
  case (Cons c p)
  obtain l es where t: "t = Trie l es" by (cases t)
  have d: "distinct (map fst es)" using Cons.prems t by simp
  have c: "c \<noteq> LAST" "LAST \<notin> set p" using Cons.prems by auto
  show ?case
  proof (cases "c = DOT")
    case False
    show ?thesis
    proof (cases "map_of es c")
      case None
      then have "\<not> (\<exists>w \<in> stored t. pattern_matches (c # p) w)"
        using False Cons_in_stored[OF d c(1), of _ l] by (auto simp: pattern_matches_Cons t)
      then show ?thesis using None False by (simp add: t)
    next
      case (Some child)
      then have "trie_inv child" using trie_inv_child(2) Cons.prems(1) t by blast
      from Cons.IH[OF this c(2), of c]
      have "trie_contains child (c # p @ [LAST]) = Inr (\<exists>w \<in> stored child. pattern_matches p w)" .
      moreover have "(\<exists>w \<in> stored t. pattern_matches (c # p) w) \<longleftrightarrow> (\<exists>w \<in> stored child. pattern_matches p w)"
        using False Some Cons_in_stored[OF d c(1), of _ l] by (auto simp: pattern_matches_Cons t)
      ultimately show ?thesis using Some False by (simp add: t)
    qed
  next
    case True
    have ih: "trie_contains child (DOT # p @ [LAST]) = Inr (\<exists>w \<in> stored child. pattern_matches p w)"
      if "(k, child) \<in> set es" for k child
    proof -
      have "trie_inv child" using that Cons.prems(1) t by auto
      from Cons.IH[OF this c(2)] show ?thesis .
    qed
    have "trie_contains t (x # (c # p) @ [LAST]) =
          any_contains (\<lambda>child. trie_contains child (DOT # p @ [LAST])) es"
      using True by (simp add: t)
    also have "\<dots> = Inr (\<exists>(k, child) \<in> set es. \<exists>w \<in> stored child. pattern_matches p w)"
      by (rule any_contains_eq) (rule ih)
    also have "(\<exists>(k, child) \<in> set es. \<exists>w \<in> stored child. pattern_matches p w) \<longleftrightarrow>
               (\<exists>w \<in> stored t. pattern_matches (c # p) w)"
    proof
      assume "\<exists>(k, child) \<in> set es. \<exists>w \<in> stored child. pattern_matches p w"
      then obtain k child w where kc: "(k, child) \<in> set es" "w \<in> stored child" "pattern_matches p w"
        by auto
      have "k \<noteq> LAST"
      proof
        assume "k = LAST"
        then have "entry child = []" using kc(1) Cons.prems(1) t by auto
        then show False using kc(2) by (cases child) simp
      qed
      then have "k # w \<in> stored t"
        using kc d by (auto simp: t Cons_in_stored)
      then show "\<exists>w \<in> stored t. pattern_matches (c # p) w"
        using kc(3) True by (auto simp: pattern_matches_Cons)
    next
      assume "\<exists>w \<in> stored t. pattern_matches (c # p) w"
      then obtain k w where kw: "k # w \<in> stored t" "pattern_matches p w"
        by (auto simp: pattern_matches_Cons)
      then have "k \<noteq> LAST" using LAST_Cons_notin_stored by blast
      then obtain child where "map_of es k = Some child" "w \<in> stored child"
        using kw(1) d by (auto simp: t Cons_in_stored)
      then show "\<exists>(k, child) \<in> set es. \<exists>w \<in> stored child. pattern_matches p w"
        using kw(2) by (auto dest!: map_of_SomeD)
    qed
    finally show ?thesis .
  qed
qed

lemma distinct_concat_tagged:
  assumes "distinct (map fst es)"
    and "\<And>e. e \<in> set es \<Longrightarrow> distinct (f e)"
    and "\<And>e s. e \<in> set es \<Longrightarrow> s \<in> set (f e) \<Longrightarrow> tag s = fst e"
  shows "distinct (concat (map f es))"
  using assms
proof (induction es)
  case Nil
  then show ?case by simp
next
  case (Cons e es)
  have rest: "distinct (concat (map f es))"
  proof (rule Cons.IH)
    show "distinct (map fst es)" using Cons.prems(1) by simp
  next
    fix e' assume "e' \<in> set es"
    then show "distinct (f e')" using Cons.prems(2)[of e'] by simp
  next
    fix e' s assume "e' \<in> set es" "s \<in> set (f e')"
    then show "tag s = fst e'" using Cons.prems(3)[of e' s] by simp
  qed
  have disj: "s \<notin> set (concat (map f es))" if s: "s \<in> set (f e)" for s
  proof
    assume "s \<in> set (concat (map f es))"
    then obtain e' where e': "e' \<in> set es" "s \<in> set (f e')" by auto
    have "tag s = fst e" using Cons.prems(3)[of e s] s by simp
    moreover have "tag s = fst e'" using Cons.prems(3)[of e' s] e' by simp
    ultimately have "fst e = fst e'" by simp
    then have "fst e \<in> fst ` set es" using e'(1) by (metis imageI)
    then show False using Cons.prems(1) by simp
  qed
  have "distinct (f e)" using Cons.prems(2)[of e] by simp
  moreover have "set (f e) \<inter> set (concat (map f es)) = {}" using disj by blast
  ultimately show ?case using rest by simp
qed

lemma distinct_get_all_suffixes:
  assumes "trie_inv t"
  shows "distinct (get_all_suffixes t)"
  using assms
proof (induction t rule: get_all_suffixes.induct)
  case (1 l es)
  let ?f = "\<lambda>(c, child). if c = LAST then [[]] else map ((#) c) (get_all_suffixes child)"
  have "distinct (concat (map ?f es))"
  proof (rule distinct_concat_tagged[where tag = suffix_tag])
    show "distinct (map fst es)" using "1.prems" by simp
  next
    fix e assume e: "e \<in> set es"
    obtain c child where ec: "e = (c, child)" by (cases e)
    show "distinct (?f e)"
    proof (cases "c = LAST")
      case True
      then show ?thesis by (simp add: ec)
    next
      case False
      have "(c, child) \<in> set es" using e by (simp add: ec)
      then have "trie_inv child" using "1.prems" by auto
      then have "distinct (get_all_suffixes child)"
        by (rule "1.IH"[OF e ec[symmetric] False])
      then show ?thesis using False by (simp add: ec distinct_map)
    qed
  next
    fix e s assume e: "e \<in> set es" and s: "s \<in> set (?f e)"
    obtain c child where ec: "e = (c, child)" by (cases e)
    show "suffix_tag s = fst e"
    proof (cases "c = LAST")
      case True
      then show ?thesis using s by (simp add: ec suffix_tag_def)
    next
      case False
      then obtain s' where "s = c # s'" using s by (auto simp: ec)
      then show ?thesis by (simp add: ec suffix_tag_def)
    qed
  qed
  then show ?case by (simp only: get_all_suffixes.simps)
qed

lemma trie_search_correct:
  assumes "trie_inv t" "LAST \<notin> set p"
  shows "\<exists>xs. trie_search t (x # p @ [LAST]) pfx = Inr xs \<and> distinct xs \<and>
           set xs = {pfx @ s | s. p @ s \<in> stored t}"
  using assms
proof (induction p arbitrary: t x)
  case Nil
  obtain l es where t: "t = Trie l es" by (cases t)
  have "distinct (map (\<lambda>s. pfx @ s) (get_all_suffixes t))"
    using distinct_get_all_suffixes[OF Nil.prems(1)] by (simp add: distinct_map inj_on_def)
  then show ?case unfolding t by (auto simp: stored_def simp del: get_all_suffixes.simps)
next
  case (Cons c p)
  obtain l es where t: "t = Trie l es" by (cases t)
  have d: "distinct (map fst es)" using Cons.prems t by simp
  have c: "c \<noteq> LAST" "LAST \<notin> set p" using Cons.prems by auto
  show ?case
  proof (cases "map_of es c")
    case None
    then show ?thesis using c Cons_in_stored[OF d c(1), of _ l] by (simp add: t)
  next
    case (Some child)
    then have "trie_inv child" using trie_inv_child(2) Cons.prems(1) t by blast
    from Cons.IH[OF this c(2), of c] Some c show ?thesis
      using Cons_in_stored[OF d c(1), of _ l] by (simp add: t)
  qed
qed

lemma re_match_class_star_chars:
  "re_match_class_star cls w \<Longrightarrow> c \<in> set w \<Longrightarrow> cls c \<or> c = CHR 0x0A"
  by (induction cls w rule: re_match_class_star.induct) auto

lemma re_match_class_star_all:
  "list_all cls w \<Longrightarrow> re_match_class_star cls w"
  by (induction cls w rule: re_match_class_star.induct) auto

lemma re_match_class_star_mono:
  "re_match_class_star cls w \<Longrightarrow> (\<And>c. cls c \<Longrightarrow> cls' c) \<Longrightarrow> re_match_class_star cls' w"
  by (induction cls w rule: re_match_class_star.induct) auto

lemma not_lower_letter_LAST [simp]: "\<not> lower_letter LAST" "\<not> lower_letter DOT" "\<not> lower_letter FIRST"
  by (simp_all add: lower_letter_def LAST_def DOT_def FIRST_def)

lemma LAST_not_newline [simp]: "LAST \<noteq> CHR 0x0A"
  by (simp add: LAST_def)

lemma LETTERS_PATTERN_no_LAST: "LETTERS_PATTERN w \<Longrightarrow> LAST \<notin> set w"
  using re_match_class_star_chars[of lower_letter w LAST]
  by (auto simp: LETTERS_PATTERN_def)

lemma LETTERS_AND_DOT_PATTERN_no_LAST: "LETTERS_AND_DOT_PATTERN w \<Longrightarrow> LAST \<notin> set w"
  using re_match_class_star_chars[of lower_letter_or_dot w LAST]
  by (auto simp: LETTERS_AND_DOT_PATTERN_def lower_letter_or_dot_def)

lemma LETTERS_PATTERN_imp_DOT: "LETTERS_PATTERN w \<Longrightarrow> LETTERS_AND_DOT_PATTERN w"
  unfolding LETTERS_PATTERN_def LETTERS_AND_DOT_PATTERN_def
  by (erule re_match_class_star_mono) (simp add: lower_letter_or_dot_def)

lemma letters_LETTERS_PATTERN: "list_all lower_letter w \<Longrightarrow> LETTERS_PATTERN w"
  by (simp add: LETTERS_PATTERN_def re_match_class_star_all)

lemma letters_dots_LETTERS_AND_DOT_PATTERN:
  "list_all lower_letter_or_dot p \<Longrightarrow> LETTERS_AND_DOT_PATTERN p"
  by (simp add: LETTERS_AND_DOT_PATTERN_def re_match_class_star_all)

lemma pattern_matches_agrees:
  assumes "list_all lower_letter_or_dot p"
  shows "pattern_matches p w \<longleftrightarrow> agrees_with_pattern p w"
proof -
  have "lower_letter (p ! i) \<longleftrightarrow> p ! i \<noteq> DOT" if "i < length p" for i
    using assms that by (auto simp: list_all_length lower_letter_or_dot_def)
  then show ?thesis
    by (auto simp: pattern_matches_def agrees_with_pattern_def list_all2_conv_all_nth)
qed

lemma pattern_matches_refl: "pattern_matches w w"
  by (simp add: pattern_matches_def list_all2_same)

lemma words_inv_init: "words_inv Words_init []"
  by (simp add: words_inv_def Words_init_def)

lemma add_word_invalid: "\<not> LETTERS_PATTERN w \<Longrightarrow> add_word s w = (Inl BadInputLetters, s)"
  by (simp add: add_word_def)

lemma contains_invalid:
  "\<not> LETTERS_AND_DOT_PATTERN w \<Longrightarrow> contains s w = (Inl BadInputLettersAndDot, s)"
  by (simp add: contains_def)

lemma search_invalid: "\<not> LETTERS_PATTERN w \<Longrightarrow> search s w = (Inl BadInputLetters, s)"
  by (simp add: search_def)

lemma add_word_ok:
  assumes "words_inv s ws" "LETTERS_PATTERN w"
  shows "\<exists>s'. add_word s w = (Inr (), s') \<and> words_inv s' (ws @ [w])"
proof -
  have inv: "trie_inv (w_trie s)" and l: "letter (w_trie s) = FIRST"
    using assms(1) by (simp_all add: words_inv_def)
  from trie_add_word_ok[OF inv LETTERS_PATTERN_no_LAST[OF assms(2)]] l
  obtain t' where t': "trie_add_word (w_trie s) (FIRST # w @ [LAST]) = (Inr (), t')"
    "trie_inv t'" "letter t' = FIRST" "stored t' = insert w (stored (w_trie s))"
    by auto
  have "add_word s w = (Inr (), s\<lparr>w_trie := t'\<rparr>)"
    using assms(2) t'(1) by (simp add: add_word_def pad_word_def)
  moreover have "words_inv (s\<lparr>w_trie := t'\<rparr>) (ws @ [w])"
    using assms t' by (auto simp: words_inv_def)
  ultimately show ?thesis by blast
qed

lemma add_word_raise_unchanged:
  assumes "words_inv s ws" "add_word s w = (Inl e, s')"
  shows "s' = s \<and> e = BadInputLetters \<and> \<not> LETTERS_PATTERN w"
proof (cases "LETTERS_PATTERN w")
  case True
  then show ?thesis using add_word_ok[OF assms(1) True] assms(2) by auto
next
  case False
  then show ?thesis using assms(2) by (simp add: add_word_invalid)
qed

lemma contains_state: "snd (contains s p) = s"
  by (simp add: contains_def)

lemma search_state: "snd (search s p) = s"
  by (simp add: search_def)

lemma dict_state_inv: "dict_state s ws \<Longrightarrow> words_inv s ws"
proof (induction rule: dict_state.induct)
  case ds_init
  then show ?case by (rule words_inv_init)
next
  case (ds_add s ws w s')
  have "LETTERS_PATTERN w" using ds_add.hyps(2) by (auto simp: add_word_def split: if_splits)
  from add_word_ok[OF ds_add.IH this] obtain s'' where
    "add_word s w = (Inr (), s'')" "words_inv s'' (ws @ [w])" by blast
  then show ?case using ds_add.hyps(2) by simp
next
  case (ds_add_raise s ws w e s')
  then show ?case using add_word_raise_unchanged by blast
next
  case (ds_contains s ws p r s')
  then show ?case using contains_state[of s p] by simp
next
  case (ds_search s ws p r' s')
  then show ?case using search_state[of s p] by simp
qed

lemma contains_correct:
  assumes "words_inv s ws" "LETTERS_AND_DOT_PATTERN p"
  shows "contains s p = (Inr (\<exists>w \<in> set ws. pattern_matches p w), s)"
  using assms trie_contains_correct[of "w_trie s" p FIRST]
  by (simp add: contains_def pad_word_def words_inv_def LETTERS_AND_DOT_PATTERN_no_LAST)

lemma search_correct:
  assumes "words_inv s ws" "LETTERS_PATTERN p"
  shows "\<exists>xs. search s p = (Inr xs, s) \<and> distinct xs \<and> set xs = {w \<in> set ws. prefix p w}"
proof -
  have inv: "trie_inv (w_trie s)" and st: "stored (w_trie s) = set ws"
    using assms(1) by (simp_all add: words_inv_def)
  from trie_search_correct[OF inv LETTERS_PATTERN_no_LAST[OF assms(2)], of FIRST p]
  obtain xs where xs: "trie_search (w_trie s) (FIRST # p @ [LAST]) p = Inr xs" "distinct xs"
    "set xs = {p @ x | x. p @ x \<in> stored (w_trie s)}"
    by auto
  have "set xs = {w \<in> set ws. prefix p w}"
    unfolding xs(3) st by (auto simp: prefix_def)
  then show ?thesis using xs(1,2) assms(2) by (simp add: search_def pad_word_def)
qed

lemma trie_add_word_twice:
  "trie_add_word t w = (Inr (), t') \<Longrightarrow> trie_add_word t' w = (Inr (), t')"
proof (induction w arbitrary: t t')
  case Nil
  then show ?case by (simp add: trie_add_word_Nil)
next
  case (Cons w0 rest)
  obtain l es where t: "t = Trie l es" by (cases t)
  have w0: "w0 = l"
    using Cons.prems trie_add_word_assert[of w0 t rest] t by (cases "w0 = l") auto
  show ?case
  proof (cases rest)
    case Nil
    then show ?thesis using Cons.prems trie_add_word_single[of t] t w0 by simp
  next
    case (Cons k r)
    obtain res c' where c': "trie_add_word (child_or_new es k) (k # r) = (res, c')"
      by (cases "trie_add_word (child_or_new es k) (k # r)")
    have eq: "res = Inr ()" "t' = Trie l (AList.update k c' es)"
      using Cons.prems c' by (simp_all add: t w0 Cons trie_add_word_step)
    have ih: "trie_add_word c' (k # r) = (Inr (), c')"
      using Cons.IH[of "child_or_new es k" c'] c' eq(1) Cons by simp
    have "child_or_new (AList.update k c' es) k = c'"
      by (simp add: child_or_new_def update_conv')
    then show ?thesis using ih by (simp add: eq(2) w0 Cons trie_add_word_step)
  qed
qed

lemma add_word_twice:
  assumes "add_word s w = (Inr (), s')"
  shows "add_word s' w = (Inr (), s')"
proof -
  have v: "LETTERS_PATTERN w" using assms by (auto simp: add_word_def split: if_splits)
  obtain r t' where t': "trie_add_word (w_trie s) (pad_word w) = (r, t')"
    by (cases "trie_add_word (w_trie s) (pad_word w)")
  then have r: "r = Inr ()" "s' = s\<lparr>w_trie := t'\<rparr>" using assms v by (simp_all add: add_word_def)
  have "trie_add_word t' (pad_word w) = (Inr (), t')"
    using trie_add_word_twice t' r(1) by simp
  then show ?thesis using v by (simp add: add_word_def r(2))
qed

lemma dict_state_after_adds: "dict_state s ws \<Longrightarrow> s = after_adds ws"
proof (induction rule: dict_state.induct)
  case ds_init
  then show ?case by (simp add: after_adds_def)
next
  case (ds_add s ws w s')
  then show ?case by (simp add: after_adds_def)
next
  case (ds_add_raise s ws w e s')
  then show ?case using add_word_raise_unchanged[OF dict_state_inv] by blast
next
  case (ds_contains s ws p r s')
  then show ?case using contains_state[of s p] by simp
next
  case (ds_search s ws p r' s')
  then show ?case using search_state[of s p] by simp
qed

lemma dict_state_add:
  assumes "dict_state s ws" "LETTERS_PATTERN w"
  shows "dict_state (snd (add_word s w)) (ws @ [w])"
proof -
  from add_word_ok[OF dict_state_inv[OF assms(1)] assms(2)]
  obtain s' where "add_word s w = (Inr (), s')" by blast
  then show ?thesis using ds_add[OF assms(1)] by simp
qed

lemma after_adds_dict_state:
  "\<forall>w \<in> set ws. LETTERS_PATTERN w \<Longrightarrow> dict_state (after_adds ws) ws"
proof (induction ws rule: rev_induct)
  case Nil
  then show ?case by (simp add: after_adds_def ds_init)
next
  case (snoc w ws)
  then have "dict_state (after_adds ws) ws" "LETTERS_PATTERN w" by simp_all
  from dict_state_add[OF this] show ?case by (simp add: after_adds_def)
qed

lemma LETTERS_PATTERN_examples:
  "LETTERS_PATTERN ''mad''" "LETTERS_PATTERN ''madmax''" "LETTERS_PATTERN ''''"
  "LETTERS_PATTERN ''ma''" "LETTERS_PATTERN ''bad''"
  by (simp_all add: LETTERS_PATTERN_def lower_letter_def)

lemma example_words_state: "dict_state example_words [''mad'', ''madmax'', '''']"
  unfolding example_words_def
  by (rule after_adds_dict_state) (simp add: LETTERS_PATTERN_examples)

section \<open>Further lemmas for the public methods\<close>

lemma only_empty_word_state: "dict_state (after_adds ['''']) ['''']"
  by (rule after_adds_dict_state) (simp add: LETTERS_PATTERN_examples)

lemma dot_pattern_example: "list_all lower_letter_or_dot ''.''"
  by (simp add: lower_letter_or_dot_def DOT_def)

lemma re_match_class_star_iff:
  "re_match_class_star cls w \<longleftrightarrow>
     list_all cls w \<or> (w \<noteq> [] \<and> last w = CHR 0x0A \<and> list_all cls (butlast w))"
  by (induction cls w rule: re_match_class_star.induct) auto

text \<open>
  What the checks do reject: an argument that is neither a string over the class nor
  such a string followed by one final newline raises \<open>WordsError\<close> and leaves the
  object as it was, in every state.
\<close>

lemma invalid_input_rejected:
  assumes "\<not> list_all cls x"
    and "\<not> (x \<noteq> [] \<and> last x = CHR 0x0A \<and> list_all cls (butlast x))"
  shows "cls = lower_letter \<Longrightarrow> add_word s x = (Inl BadInputLetters, s)"
    and "cls = lower_letter \<Longrightarrow> search s x = (Inl BadInputLetters, s)"
    and "cls = lower_letter_or_dot \<Longrightarrow> contains s x = (Inl BadInputLettersAndDot, s)"
  using assms re_match_class_star_iff[of cls x]
  by (simp_all add: add_word_def search_def contains_def LETTERS_PATTERN_def
      LETTERS_AND_DOT_PATTERN_def)

lemma prefix_ma_examples:
  "{w \<in> set [''mad'', ''madmax'', '''']. prefix ''ma'' w} = {''mad'', ''madmax''}"
  by auto

lemma not_LETTERS_PATTERN_example: "\<not> LETTERS_PATTERN ''Ma''"
  by (simp add: LETTERS_PATTERN_def lower_letter_def)

section \<open>Lemmas about the store\<close>

lemma heap_inv_parent:
  assumes "heap_inv h" "b < length h" "0 < b"
  shows "\<exists>a < length h. b \<in> snd ` set (n_entry (h ! a))"
  using assms unfolding heap_inv_def by blast

lemma heap_inv_entry:
  assumes "heap_inv h" "a < length h" "(c, b) \<in> set (n_entry (h ! a))"
  shows "a < b" "b < length h" "n_letter (h ! b) = c"
  using assms unfolding heap_inv_def by blast+

lemma heap_inv_distinct:
  assumes "heap_inv h" "a < length h"
  shows "distinct (map fst (n_entry (h ! a)))" "distinct (map snd (n_entry (h ! a)))"
  using assms unfolding heap_inv_def by blast+

lemma heap_inv_disjoint:
  assumes "heap_inv h" "a < length h" "a' < length h" "a \<noteq> a'"
  shows "snd ` set (n_entry (h ! a)) \<inter> snd ` set (n_entry (h ! a')) = {}"
  using assms unfolding heap_inv_def by blast

lemma update_new_key: "map_of es k = None \<Longrightarrow> AList.update k v es = es @ [(k, v)]"
  by (induction es) (auto split: if_splits)

lemma alloc_child_nth:
  assumes "a < length h" "map_of (n_entry (h ! a)) k = None"
  shows "length (alloc_child h a k) = Suc (length h)"
    and "alloc_child h a k ! a = (h ! a)\<lparr>n_entry := n_entry (h ! a) @ [(k, length h)]\<rparr>"
    and "alloc_child h a k ! length h = \<lparr>n_letter = k, n_entry = []\<rparr>"
    and "\<And>x. x < length h \<Longrightarrow> x \<noteq> a \<Longrightarrow> alloc_child h a k ! x = h ! x"
  using assms by (simp_all add: alloc_child_def update_new_key nth_append)

lemma alloc_child_entry:
  assumes "a < length h" "map_of (n_entry (h ! a)) k = None" "x < Suc (length h)"
  shows "n_entry (alloc_child h a k ! x) =
           (if x = a then n_entry (h ! a) @ [(k, length h)]
            else if x = length h then [] else n_entry (h ! x))"
    and "n_letter (alloc_child h a k ! x) = (if x = length h then k else n_letter (h ! x))"
proof -
  note N = alloc_child_nth[OF assms(1,2)]
  show "n_entry (alloc_child h a k ! x) =
           (if x = a then n_entry (h ! a) @ [(k, length h)]
            else if x = length h then [] else n_entry (h ! x))"
    using assms(1,3) N by (cases "x = a") (auto simp: less_Suc_eq)
  show "n_letter (alloc_child h a k ! x) = (if x = length h then k else n_letter (h ! x))"
    using assms(1,3) N by (cases "x = a") (auto simp: less_Suc_eq)
qed

lemma heap_inv_alloc_child:
  assumes "heap_inv h" "a < length h" "map_of (n_entry (h ! a)) k = None"
  shows "heap_inv (alloc_child h a k)"
proof -
  let ?h = "alloc_child h a k"
  note E = alloc_child_entry[OF assms(2,3)]
  have len: "length ?h = Suc (length h)" by (rule alloc_child_nth(1)[OF assms(2,3)])
  have bound: "b < length h" if "x < length h" "b \<in> snd ` set (n_entry (h ! x))" for x b
    using assms(1) that by (fastforce simp: heap_inv_def)
  have knew: "k \<notin> fst ` set (n_entry (h ! a))"
    using assms(3) by (simp add: map_of_eq_None_iff)
  have 1: "distinct (map fst (n_entry (?h ! x))) \<and> distinct (map snd (n_entry (?h ! x))) \<and>
         (\<forall>(c, b) \<in> set (n_entry (?h ! x)). x < b \<and> b < length ?h \<and> n_letter (?h ! b) = c)"
    if x: "x < length ?h" for x
  proof -
    have xs: "x < Suc (length h)" using x len by simp
    consider "x = a" | "x = length h" | "x < length h" "x \<noteq> a" using xs by linarith
    then show ?thesis
    proof cases
      case 1
      have old: "distinct (map fst (n_entry (h ! a)))" "distinct (map snd (n_entry (h ! a)))"
        "\<forall>(c, b) \<in> set (n_entry (h ! a)). a < b \<and> b < length h \<and> n_letter (h ! b) = c"
        using assms(1,2) by (auto simp: heap_inv_def)
      have fresh: "length h \<notin> snd ` set (n_entry (h ! a))"
        using bound[OF assms(2)] by blast
      show ?thesis
        using old fresh knew assms(2) 1 xs
        by (auto simp: E len less_Suc_eq)
    next
      case 2
      then show ?thesis using assms(2) by (simp add: E)
    next
      case 3
      have old: "distinct (map fst (n_entry (h ! x)))" "distinct (map snd (n_entry (h ! x)))"
        "\<forall>(c, b) \<in> set (n_entry (h ! x)). x < b \<and> b < length h \<and> n_letter (h ! b) = c"
        using assms(1) 3 by (auto simp: heap_inv_def)
      show ?thesis using old 3 xs by (auto simp: E len less_Suc_eq)
    qed
  qed
  have ent: "snd ` set (n_entry (?h ! x)) =
      (if x = a then insert (length h) (snd ` set (n_entry (h ! a)))
       else if x = length h then {} else snd ` set (n_entry (h ! x)))"
    if "x < Suc (length h)" for x
    using that by (simp add: E)
  have 2: "snd ` set (n_entry (?h ! x)) \<inter> snd ` set (n_entry (?h ! x')) = {}"
    if "x < length ?h" "x' < length ?h" "x \<noteq> x'" for x x'
  proof -
    have xs: "x < Suc (length h)" "x' < Suc (length h)" using that len by simp_all
    have old: "snd ` set (n_entry (h ! y)) \<inter> snd ` set (n_entry (h ! y')) = {}"
      if "y < length h" "y' < length h" "y \<noteq> y'" for y y'
      using assms(1) that by (simp add: heap_inv_def)
    have fresh: "length h \<notin> snd ` set (n_entry (h ! y))" if "y < length h" for y
      using bound[OF that] by blast
    show ?thesis
    proof (cases "x = length h \<or> x' = length h")
      case True
      then consider "x = length h" | "x' = length h" by blast
      then show ?thesis
      proof cases
        case 1
        then have "x' < length h" using that(3) xs(2) by simp
        then show ?thesis using 1 assms(2) fresh[of x'] fresh[of a] by (auto simp: ent)
      next
        case 2
        then have "x < length h" using that(3) xs(1) by simp
        then show ?thesis using 2 assms(2) fresh[of x] fresh[of a] by (auto simp: ent)
      qed
    next
      case False
      then have lt: "x < length h" "x' < length h" using xs by simp_all
      show ?thesis
        using old[OF lt that(3)] fresh[OF lt(1)] fresh[OF lt(2)] that(3) assms(2)
        by (auto simp: ent[OF xs(1)] ent[OF xs(2)])
    qed
  qed
  have 3: "\<exists>x < length ?h. b \<in> snd ` set (n_entry (?h ! x))" if bb: "b < length ?h" "0 < b" for b
  proof (cases "b = length h")
    case True
    have "b \<in> snd ` set (n_entry (?h ! a))" using True assms(2) by (simp add: ent)
    moreover have "a < length ?h" using assms(2) len by simp
    ultimately show ?thesis by blast
  next
    case False
    then have "b < length h" using bb len by simp
    then obtain x where x: "x < length h" "b \<in> snd ` set (n_entry (h ! x))"
      using heap_inv_parent[OF assms(1) _ bb(2)] by blast
    then have "b \<in> snd ` set (n_entry (?h ! x))" by (auto simp: ent)
    moreover have "x < length ?h" using x(1) len by simp
    ultimately show ?thesis by blast
  qed
  show ?thesis unfolding heap_inv_def using 1 2 3 by blast
qed

lemma heap_add_word_Cons2:
  "heap_add_word h a (w0 # k # r) =
     (if w0 \<noteq> n_letter (h ! a) then (Inl AssertionError, h)
      else let h1 = (if map_of (n_entry (h ! a)) k = None then alloc_child h a k else h)
           in case map_of (n_entry (h1 ! a)) k of
                None \<Rightarrow> (Inl KeyError, h1)
              | Some child \<Rightarrow> heap_add_word h1 child (k # r))"
  unfolding alloc_child_def by (simp add: Let_def)

lemma heap_add_word_single:
  "heap_add_word h a [w0] = (if w0 \<noteq> n_letter (h ! a) then (Inl AssertionError, h) else (Inr (), h))"
  by simp

declare heap_add_word.simps(2) [simp del]

lemma heap_add_word_inv:
  assumes "heap_inv h" "a < length h"
  shows "heap_inv (snd (heap_add_word h a w)) \<and> length h \<le> length (snd (heap_add_word h a w)) \<and>
         (\<forall>x < length h. n_letter (snd (heap_add_word h a w) ! x) = n_letter (h ! x))"
  using assms
proof (induction w arbitrary: h a)
  case Nil
  then show ?case by simp
next
  case (Cons w0 rest)
  show ?case
  proof (cases rest)
    case Nil
    then show ?thesis using Cons.prems by (simp add: heap_add_word_single)
  next
    case (Cons k r)
    show ?thesis
    proof (cases "w0 \<noteq> n_letter (h ! a)")
      case True
      then show ?thesis using Cons.prems \<open>rest = k # r\<close> by (simp add: heap_add_word_Cons2)
    next
      case False
      define h1 where "h1 = (if map_of (n_entry (h ! a)) k = None then alloc_child h a k else h)"
      have h1: "heap_inv h1" "length h \<le> length h1"
        "\<forall>x < length h. n_letter (h1 ! x) = n_letter (h ! x)"
        using Cons.prems heap_inv_alloc_child[of h a k] alloc_child_nth(1)[of a h k]
          alloc_child_entry(2)[of a h k]
        by (auto simp: h1_def)
      have a1: "a < length h1" using h1(2) Cons.prems(2) by simp
      have "\<exists>child. map_of (n_entry (h1 ! a)) k = Some child"
      proof (cases "map_of (n_entry (h ! a)) k")
        case None
        then show ?thesis
          using alloc_child_nth(2)[OF Cons.prems(2) None]
          by (simp add: h1_def map_of_append map_add_def)
      next
        case (Some b)
        then show ?thesis by (simp add: h1_def)
      qed
      then obtain child where child: "map_of (n_entry (h1 ! a)) k = Some child" by blast
      then have "(k, child) \<in> set (n_entry (h1 ! a))" by (rule map_of_SomeD)
      then have c1: "child < length h1" using heap_inv_entry(2)[OF h1(1) a1] by blast
      have eq: "heap_add_word h a (w0 # rest) = heap_add_word h1 child rest"
        using False child \<open>rest = k # r\<close> by (simp add: heap_add_word_Cons2 h1_def)
      from Cons.IH[OF h1(1) c1] h1(2,3) show ?thesis unfolding eq by auto
    qed
  qed
qed

lemma hwords_inv_init: "hwords_inv H_init"
  by (simp add: hwords_inv_def H_init_def heap_inv_def)

lemma H_add_word_inv:
  assumes "hwords_inv s"
  shows "hwords_inv (snd (H_add_word s x))"
proof (cases "LETTERS_PATTERN x")
  case False
  then show ?thesis using assms by (simp add: H_add_word_def)
next
  case True
  let ?h = "hw_store s"
  have inv: "heap_inv ?h" and r: "hw_trie s = 0" and ne: "0 < length ?h"
    and l: "n_letter (?h ! 0) = FIRST"
    using assms by (simp_all add: hwords_inv_def)
  note A = heap_add_word_inv[OF inv ne, of "pad_word x"]
  let ?h' = "snd (heap_add_word ?h 0 (pad_word x))"
  have "snd (H_add_word s x) = s\<lparr>hw_store := ?h'\<rparr>"
    using True r by (simp add: H_add_word_def split: prod.splits)
  moreover have "heap_inv ?h'" using A by blast
  moreover have "0 < length ?h'" using A ne by linarith
  moreover have "n_letter (?h' ! 0) = FIRST" using A ne l by auto
  ultimately show ?thesis using r by (simp add: hwords_inv_def)
qed

lemma H_contains_state: "snd (H_contains s x) = s"
  by (simp add: H_contains_def)

lemma H_search_state: "snd (H_search s x) = s"
  by (simp add: H_search_def)

lemma hdict_state_inv: "hdict_state s \<Longrightarrow> hwords_inv s"
proof (induction rule: hdict_state.induct)
  case hs_init
  then show ?case by (rule hwords_inv_init)
next
  case (hs_add s x)
  then show ?case by (simp add: H_add_word_inv)
next
  case (hs_contains s x)
  then show ?case by (simp add: H_contains_state)
next
  case (hs_search s x)
  then show ?case by (simp add: H_search_state)
qed

lemma heap_child_less:
  assumes "heap_inv h" "(a, b) \<in> heap_child h"
  shows "a < b" "b < length h"
proof -
  from assms(2) obtain c where a: "a < length h" and c: "(c, b) \<in> set (n_entry (h ! a))"
    by (auto simp: heap_child_def)
  show "a < b" by (rule heap_inv_entry(1)[OF assms(1) a c])
  show "b < length h" by (rule heap_inv_entry(2)[OF assms(1) a c])
qed

lemma heap_child_trancl_less:
  assumes "heap_inv h" "(a, b) \<in> (heap_child h)\<^sup>+"
  shows "a < b"
  using assms(2)
proof (induction rule: trancl.induct)
  case (r_into_trancl a b)
  then show ?case by (rule heap_child_less(1)[OF assms(1)])
next
  case (trancl_into_trancl a b c)
  have "b < c" by (rule heap_child_less(1)[OF assms(1) trancl_into_trancl.hyps(2)])
  then show ?case using trancl_into_trancl.IH by simp
qed

lemma heap_reach_bound:
  assumes "heap_inv h" "r < length h" "b \<in> heap_reach h r"
  shows "b < length h"
proof -
  have "(r, b) \<in> (heap_child h)\<^sup>*" using assms(3) by (simp add: heap_reach_def)
  then show ?thesis
  proof (induction rule: rtrancl_induct)
    case base
    then show ?case by (rule assms(2))
  next
    case (step y z)
    show ?case by (rule heap_child_less(2)[OF assms(1) step.hyps(2)])
  qed
qed

lemma snd_unique:
  assumes "distinct (map snd es)" "(c, b) \<in> set es" "(c', b) \<in> set es"
  shows "c = c'"
proof -
  have "inj_on snd (set es)" using assms(1) by (simp add: distinct_map)
  from inj_onD[OF this, of "(c, b)" "(c', b)"] assms(2,3) show ?thesis by simp
qed

lemma hwords_inv_trie_structure:
  assumes "hwords_inv s"
  shows "trie_structure s"
proof -
  let ?h = "hw_store s"
  let ?R = "heap_reach ?h 0"
  have inv: "heap_inv ?h" and r: "hw_trie s = 0" and ne: "0 < length ?h"
    and l: "n_letter (?h ! 0) = FIRST"
    using assms by (simp_all add: hwords_inv_def)
  have bound: "a < length ?h" if "a \<in> ?R" for a
    by (rule heap_reach_bound[OF inv ne that])
  have 1: "a < length ?h \<and> distinct (map fst (n_entry (?h ! a))) \<and>
           (\<forall>(c, b) \<in> set (n_entry (?h ! a)). n_letter (?h ! b) = c)" if "a \<in> ?R" for a
    using bound[OF that] heap_inv_distinct(1)[OF inv] heap_inv_entry(3)[OF inv] by blast
  have 2: "\<exists>!p. fst p \<in> ?R \<and> (snd p, b) \<in> set (n_entry (?h ! fst p))"
    if b: "b \<in> ?R" "b \<noteq> 0" for b
  proof -
    have "(0, b) \<in> (heap_child ?h)\<^sup>*" using b(1) by (simp add: heap_reach_def)
    then obtain a where a: "(0, a) \<in> (heap_child ?h)\<^sup>*" "(a, b) \<in> heap_child ?h"
      using b(2) by (auto elim: rtranclE)
    then obtain c where c: "(c, b) \<in> set (n_entry (?h ! a))"
      by (auto simp: heap_child_def)
    have aR: "a \<in> ?R" using a(1) by (simp add: heap_reach_def)
    show ?thesis
    proof (rule ex1I[of _ "(a, c)"])
      show "fst (a, c) \<in> ?R \<and> (snd (a, c), b) \<in> set (n_entry (?h ! fst (a, c)))"
        using aR c by simp
    next
      fix p assume p: "fst p \<in> ?R \<and> (snd p, b) \<in> set (n_entry (?h ! fst p))"
      have la: "a < length ?h" and lp: "fst p < length ?h" using bound aR p by blast+
      have "b \<in> snd ` set (n_entry (?h ! a)) \<inter> snd ` set (n_entry (?h ! fst p))"
        using c p by force
      then have eq: "fst p = a" using heap_inv_disjoint[OF inv la lp] by blast
      have "snd p = c"
        using snd_unique[OF heap_inv_distinct(2)[OF inv la], of "snd p" b c] p c eq by simp
      then show "p = (a, c)" using eq by (cases p) simp
    qed
  qed
  have 3: "(a, 0) \<notin> heap_child ?h" for a
    using heap_child_less(1)[OF inv, of a 0] by blast
  have 4: "(a, a) \<notin> (heap_child ?h)\<^sup>+" for a
    using heap_child_trancl_less[OF inv, of a a] by blast
  have A: "\<forall>a \<in> ?R. a < length ?h \<and> distinct (map fst (n_entry (?h ! a))) \<and>
           (\<forall>(c, b) \<in> set (n_entry (?h ! a)). n_letter (?h ! b) = c)"
    using 1 by blast
  have B: "\<forall>b \<in> ?R. b \<noteq> 0 \<longrightarrow>
           (\<exists>!p. fst p \<in> ?R \<and> (snd p, b) \<in> set (n_entry (?h ! fst p)))"
    using 2 by blast
  have C: "\<forall>a \<in> ?R. (a, 0) \<notin> heap_child ?h" using 3 by blast
  have D: "\<forall>a \<in> ?R. (a, a) \<notin> (heap_child ?h)\<^sup>+" using 4 by blast
  show ?thesis
    unfolding trie_structure_def Let_def r
    by (intro conjI ne l A B C D)
qed

lemma H_example_state: "hdict_state H_example"
  unfolding H_example_def by (intro hs_add hs_init)

lemma those_map_Some:
  assumes "\<And>x. x \<in> set xs \<Longrightarrow> f x \<noteq> None"
  shows "those (map f xs) \<noteq> None"
  using assms
proof (induction xs)
  case Nil
  then show ?case by simp
next
  case (Cons x xs)
  have "f x \<noteq> None" using Cons.prems[of x] by simp
  moreover have "those (map f xs) \<noteq> None"
  proof (rule Cons.IH)
    fix y assume "y \<in> set xs"
    then show "f y \<noteq> None" using Cons.prems[of y] by simp
  qed
  ultimately show ?case by (auto split: option.splits)
qed

lemma heap_get_all_suffixes_returns:
  assumes "heap_inv h" "a < length h" "length h - a \<le> fuel"
  shows "heap_get_all_suffixes fuel h a \<noteq> None"
  using assms(2,3)
proof (induction fuel arbitrary: a)
  case 0
  then show ?case by simp
next
  case (Suc fuel)
  let ?f = "\<lambda>(c, child). if c = LAST then Some [[]]
                      else map_option (map ((#) c)) (heap_get_all_suffixes fuel h child)"
  have "those (map ?f (n_entry (h ! a))) \<noteq> None"
  proof (rule those_map_Some)
    fix e assume e: "e \<in> set (n_entry (h ! a))"
    obtain c b where cb: "e = (c, b)" by (cases e)
    have in_e: "(c, b) \<in> set (n_entry (h ! a))" using e cb by simp
    have "a < b" by (rule heap_inv_entry(1)[OF assms(1) Suc.prems(1) in_e])
    moreover have b: "b < length h" by (rule heap_inv_entry(2)[OF assms(1) Suc.prems(1) in_e])
    ultimately have "length h - b \<le> fuel" using Suc.prems(2) by linarith
    from Suc.IH[OF b this] show "?f e \<noteq> None" by (simp add: cb)
  qed
  then show ?case by simp
qed

lemma heap_search_returns:
  assumes "heap_inv h" "a < length h"
  shows "heap_search (length h) h a w pfx \<noteq> None"
  using assms(2)
proof (induction w arbitrary: a)
  case Nil
  then show ?case by simp
next
  case (Cons w0 rest)
  show ?case
  proof (cases rest)
    case Nil
    then show ?thesis by simp
  next
    case (Cons k r)
    show ?thesis
    proof (cases "k = LAST")
      case True
      have "heap_get_all_suffixes (length h) h a \<noteq> None"
        by (rule heap_get_all_suffixes_returns[OF assms(1) Cons.prems]) simp
      then show ?thesis using True Cons by auto
    next
      case False
      show ?thesis
      proof (cases "map_of (n_entry (h ! a)) k")
        case None
        then show ?thesis using False Cons by simp
      next
        case (Some b)
        then have "(k, b) \<in> set (n_entry (h ! a))" by (rule map_of_SomeD)
        then have "b < length h" by (rule heap_inv_entry(2)[OF assms(1) Cons.prems])
        from Cons.IH[OF this] show ?thesis using False Some Cons by simp
      qed
    qed
  qed
qed

lemma H_search_returns:
  assumes "hdict_state s"
  shows "\<exists>r. fst (H_search s x) = Some r"
proof (cases "LETTERS_PATTERN x")
  case False
  then show ?thesis by (simp add: H_search_def)
next
  case True
  have inv: "hwords_inv s" by (rule hdict_state_inv[OF assms])
  then have "heap_inv (hw_store s)" "hw_trie s < length (hw_store s)"
    by (simp_all add: hwords_inv_def)
  from heap_search_returns[OF this, of "pad_word x" x] show ?thesis
    using True by (auto simp: H_search_def)
qed

section \<open>The store refines the tree\<close>

declare heap_abs.simps [simp del]

lemma heap_abs_unfold:
  assumes "heap_inv h" "a < length h"
  shows "heap_abs h a =
           Trie (n_letter (h ! a)) (map (\<lambda>(c, b). (c, heap_abs h b)) (n_entry (h ! a)))"
proof -
  have "(\<lambda>(c, b). (c, if a < b \<and> b < length h then heap_abs h b else Trie c [])) e =
        (\<lambda>(c, b). (c, heap_abs h b)) e" if "e \<in> set (n_entry (h ! a))" for e
  proof -
    obtain c b where cb: "e = (c, b)" by (cases e)
    have "(c, b) \<in> set (n_entry (h ! a))" using that cb by simp
    from heap_inv_entry(1,2)[OF assms this] show ?thesis by (simp add: cb)
  qed
  then have "map (\<lambda>(c, b). (c, if a < b \<and> b < length h then heap_abs h b else Trie c []))
               (n_entry (h ! a)) = map (\<lambda>(c, b). (c, heap_abs h b)) (n_entry (h ! a))"
    by (rule map_cong[OF refl])
  then show ?thesis by (subst heap_abs.simps) simp
qed

lemma map_of_map_snd:
  "map_of (map (\<lambda>(c, b). (c, g b)) es) k = map_option g (map_of es k)"
  by (induction es) auto

lemma any_contains_map:
  "any_contains f (map (\<lambda>(c, b). (c, g b)) es) = any_contains (\<lambda>b. f (g b)) es"
  by (induction es) (auto split: sum.splits bool.splits)

lemma any_contains_cong:
  assumes "\<And>c b. (c, b) \<in> set es \<Longrightarrow> f b = f' b"
  shows "any_contains f es = any_contains f' es"
  using assms
proof (induction es)
  case Nil
  then show ?case by simp
next
  case (Cons e es)
  obtain c b where e: "e = (c, b)" by (cases e)
  have h: "f b = f' b" using Cons.prems[of c b] e by simp
  have "any_contains f es = any_contains f' es"
  proof (rule Cons.IH)
    fix c' b' assume "(c', b') \<in> set es"
    then show "f b' = f' b'" using Cons.prems[of c' b'] by simp
  qed
  then show ?case using h by (auto simp: e split: sum.splits bool.splits)
qed

lemma get_all_suffixes_map:
  "get_all_suffixes (Trie l (map (\<lambda>(c, b). (c, g b)) es)) =
     concat (map (\<lambda>(c, b). if c = LAST then [[]]
                               else map ((#) c) (get_all_suffixes (g b))) es)"
  by (induction es) auto

lemma heap_contains_refines:
  assumes "heap_inv h" "a < length h"
  shows "heap_contains h a w = trie_contains (heap_abs h a) w"
  using assms(2)
proof (induction w arbitrary: a)
  case Nil
  then show ?case by (simp add: heap_abs_unfold[OF assms(1)])
next
  case (Cons w0 rest)
  note U = heap_abs_unfold[OF assms(1) Cons.prems]
  show ?case
  proof (cases rest)
    case Nil
    then show ?thesis by (simp add: U)
  next
    case (Cons k r)
    have ih: "heap_contains h b (k # r) = trie_contains (heap_abs h b) (k # r)"
      if "(c, b) \<in> set (n_entry (h ! a))" for c b
    proof -
      have "b < length h" by (rule heap_inv_entry(2)[OF assms(1) Cons.prems that])
      from Cons.IH[OF this] show ?thesis using Cons by simp
    qed
    show ?thesis
    proof (cases "k = DOT")
      case True
      have "any_contains (\<lambda>b. heap_contains h b (k # r)) (n_entry (h ! a)) =
            any_contains (\<lambda>b. trie_contains (heap_abs h b) (k # r)) (n_entry (h ! a))"
        by (rule any_contains_cong) (rule ih)
      then show ?thesis using True Cons by (simp add: U any_contains_map)
    next
      case False
      show ?thesis
      proof (cases "map_of (n_entry (h ! a)) k")
        case None
        then show ?thesis using False Cons by (simp add: U map_of_map_snd)
      next
        case (Some b)
        then have "(k, b) \<in> set (n_entry (h ! a))" by (rule map_of_SomeD)
        from ih[OF this] show ?thesis using False Some Cons by (simp add: U map_of_map_snd)
      qed
    qed
  qed
qed

lemma those_map_eq:
  assumes "\<And>x. x \<in> set xs \<Longrightarrow> f x = Some (g x)"
  shows "those (map f xs) = Some (map g xs)"
  using assms
proof (induction xs)
  case Nil
  then show ?case by simp
next
  case (Cons x xs)
  have "f x = Some (g x)" using Cons.prems[of x] by simp
  moreover have "those (map f xs) = Some (map g xs)"
  proof (rule Cons.IH)
    fix y assume "y \<in> set xs"
    then show "f y = Some (g y)" using Cons.prems[of y] by simp
  qed
  ultimately show ?case by simp
qed

lemma heap_get_all_suffixes_refines:
  assumes "heap_inv h" "a < length h" "length h - a \<le> fuel"
  shows "heap_get_all_suffixes fuel h a = Some (get_all_suffixes (heap_abs h a))"
  using assms(2,3)
proof (induction fuel arbitrary: a)
  case 0
  then show ?case by simp
next
  case (Suc fuel)
  let ?f = "\<lambda>(c, child). if c = LAST then Some [[]]
                      else map_option (map ((#) c)) (heap_get_all_suffixes fuel h child)"
  let ?g = "\<lambda>(c, child). if c = LAST then [[]]
                      else map ((#) c) (get_all_suffixes (heap_abs h child))"
  have "those (map ?f (n_entry (h ! a))) = Some (map ?g (n_entry (h ! a)))"
  proof (rule those_map_eq)
    fix e assume e: "e \<in> set (n_entry (h ! a))"
    obtain c b where cb: "e = (c, b)" by (cases e)
    have in_e: "(c, b) \<in> set (n_entry (h ! a))" using e cb by simp
    have "a < b" by (rule heap_inv_entry(1)[OF assms(1) Suc.prems(1) in_e])
    moreover have b: "b < length h" by (rule heap_inv_entry(2)[OF assms(1) Suc.prems(1) in_e])
    ultimately have "length h - b \<le> fuel" using Suc.prems(2) by linarith
    from Suc.IH[OF b this] show "?f e = Some (?g e)" by (simp add: cb)
  qed
  moreover have "get_all_suffixes (heap_abs h a) = concat (map ?g (n_entry (h ! a)))"
    unfolding heap_abs_unfold[OF assms(1) Suc.prems(1)] by (rule get_all_suffixes_map)
  ultimately show ?case by simp
qed

lemma heap_search_refines:
  assumes "heap_inv h" "a < length h"
  shows "heap_search (length h) h a w pfx = Some (trie_search (heap_abs h a) w pfx)"
  using assms(2)
proof (induction w arbitrary: a)
  case Nil
  then show ?case by (simp add: heap_abs_unfold[OF assms(1)])
next
  case (Cons w0 rest)
  note U = heap_abs_unfold[OF assms(1) Cons.prems]
  show ?case
  proof (cases rest)
    case Nil
    then show ?thesis by (simp add: U)
  next
    case (Cons k r)
    show ?thesis
    proof (cases "k = LAST")
      case True
      have "heap_get_all_suffixes (length h) h a = Some (get_all_suffixes (heap_abs h a))"
        by (rule heap_get_all_suffixes_refines[OF assms(1) Cons.prems]) simp
      then show ?thesis using True Cons
        by (simp add: U del: get_all_suffixes.simps)
    next
      case False
      show ?thesis
      proof (cases "map_of (n_entry (h ! a)) k")
        case None
        then show ?thesis using False Cons by (simp add: U map_of_map_snd)
      next
        case (Some b)
        then have "(k, b) \<in> set (n_entry (h ! a))" by (rule map_of_SomeD)
        then have "b < length h" by (rule heap_inv_entry(2)[OF assms(1) Cons.prems])
        from Cons.IH[OF this] show ?thesis using False Some Cons
          by (simp add: U map_of_map_snd)
      qed
    qed
  qed
qed

lemma heap_reach_self: "a \<in> heap_reach h a"
  by (simp add: heap_reach_def)

lemma heap_reach_ge:
  assumes "heap_inv h" "x \<in> heap_reach h a"
  shows "a \<le> x"
proof -
  have "(a, x) \<in> (heap_child h)\<^sup>*" using assms(2) by (simp add: heap_reach_def)
  then show ?thesis
  proof (induction rule: rtrancl_induct)
    case base
    then show ?case by simp
  next
    case (step y z)
    have "y < z" by (rule heap_child_less(1)[OF assms(1) step.hyps(2)])
    then show ?case using step.IH by simp
  qed
qed

lemma heap_child_entry:
  assumes "a < length h" "(c, b) \<in> set (n_entry (h ! a))"
  shows "(a, b) \<in> heap_child h"
  using assms by (force simp: heap_child_def)

lemma heap_reach_child:
  assumes "a < length h" "(c, b) \<in> set (n_entry (h ! a))" "x \<in> heap_reach h b"
  shows "x \<in> heap_reach h a"
proof -
  have "(a, b) \<in> heap_child h" by (rule heap_child_entry[OF assms(1,2)])
  moreover have "(b, x) \<in> (heap_child h)\<^sup>*" using assms(3) by (simp add: heap_reach_def)
  ultimately have "(a, x) \<in> (heap_child h)\<^sup>*" by (rule converse_rtrancl_into_rtrancl)
  then show ?thesis by (simp add: heap_reach_def)
qed

lemma heap_parent_unique:
  assumes "heap_inv h" "(y, z) \<in> heap_child h" "(y', z) \<in> heap_child h"
  shows "y = y'"
proof (rule ccontr)
  assume ne: "y \<noteq> y'"
  have y: "y < length h" "z \<in> snd ` set (n_entry (h ! y))"
    using assms(2) by (simp_all add: heap_child_def)
  have y': "y' < length h" "z \<in> snd ` set (n_entry (h ! y'))"
    using assms(3) by (simp_all add: heap_child_def)
  from heap_inv_disjoint[OF assms(1) y(1) y'(1) ne] y(2) y'(2) show False by blast
qed

lemma heap_reach_chain:
  assumes "heap_inv h" "x \<in> heap_reach h b" "x \<in> heap_reach h b'"
  shows "b \<in> heap_reach h b' \<or> b' \<in> heap_reach h b"
proof -
  have "(b, x) \<in> (heap_child h)\<^sup>*" using assms(2) by (simp add: heap_reach_def)
  then show ?thesis using assms(3)
  proof (induction rule: rtrancl_induct)
    case base
    then show ?case by simp
  next
    case (step y z)
    have "(b', z) \<in> (heap_child h)\<^sup>*" using step.prems by (simp add: heap_reach_def)
    then show ?case
    proof (cases rule: rtranclE)
      case base
      have "(b, z) \<in> (heap_child h)\<^sup>*" using step.hyps(1,2) by (rule rtrancl_into_rtrancl)
      then show ?thesis using base by (simp add: heap_reach_def)
    next
      case (step y')
      have "y = y'" by (rule heap_parent_unique[OF assms(1) \<open>(y, z) \<in> heap_child h\<close> step(2)])
      then have "y \<in> heap_reach h b'" using step(1) by (simp add: heap_reach_def)
      then show ?thesis by (rule step.IH)
    qed
  qed
qed

lemma heap_siblings_disjoint:
  assumes "heap_inv h" "a < length h" "(c, b) \<in> set (n_entry (h ! a))"
    "(c', b') \<in> set (n_entry (h ! a))" "b \<noteq> b'"
  shows "heap_reach h b \<inter> heap_reach h b' = {}"
proof -
  have ab: "(a, b) \<in> heap_child h" "(a, b') \<in> heap_child h"
    using heap_child_entry[OF assms(2)] assms(3,4) by blast+
  have lt: "a < b" "a < b'"
    using heap_child_less(1)[OF assms(1)] ab by blast+
  have no: "u \<notin> heap_reach h v"
    if "(a, u) \<in> heap_child h" "(a, v) \<in> heap_child h" "u \<noteq> v" "a < v" for u v
  proof
    assume "u \<in> heap_reach h v"
    then have "(v, u) \<in> (heap_child h)\<^sup>*" by (simp add: heap_reach_def)
    then show False
    proof (cases rule: rtranclE)
      case base
      then show ?thesis using that(3) by simp
    next
      case (step p)
      have "p = a" by (rule heap_parent_unique[OF assms(1) step(2) that(1)])
      then have "a \<in> heap_reach h v" using step(1) by (simp add: heap_reach_def)
      then have "v \<le> a" by (rule heap_reach_ge[OF assms(1)])
      then show ?thesis using that(4) by simp
    qed
  qed
  show ?thesis
  proof (rule ccontr)
    assume "heap_reach h b \<inter> heap_reach h b' \<noteq> {}"
    then obtain x where "x \<in> heap_reach h b" "x \<in> heap_reach h b'" by blast
    from heap_reach_chain[OF assms(1) this]
    show False using no[OF ab(1) ab(2) assms(5) lt(2)] no[OF ab(2) ab(1) assms(5)[symmetric] lt(1)]
      by blast
  qed
qed

lemma heap_abs_frame:
  assumes "heap_inv h" "heap_inv h'" "length h \<le> length h'" "b < length h"
    "\<And>x. x \<in> heap_reach h b \<Longrightarrow> h' ! x = h ! x"
  shows "heap_abs h' b = heap_abs h b"
  using assms(4,5)
proof (induction "length h - b" arbitrary: b rule: less_induct)
  case less
  have b': "b < length h'" using less.prems(1) assms(3) by simp
  have same: "h' ! b = h ! b" by (rule less.prems(2)[OF heap_reach_self])
  have "(\<lambda>(c, x). (c, heap_abs h' x)) e = (\<lambda>(c, x). (c, heap_abs h x)) e"
    if e: "e \<in> set (n_entry (h ! b))" for e
  proof -
    obtain c x where cx: "e = (c, x)" by (cases e)
    have in_e: "(c, x) \<in> set (n_entry (h ! b))" using e cx by simp
    have bx: "b < x" by (rule heap_inv_entry(1)[OF assms(1) less.prems(1) in_e])
    have x: "x < length h" by (rule heap_inv_entry(2)[OF assms(1) less.prems(1) in_e])
    have "heap_abs h' x = heap_abs h x"
    proof (rule less.hyps)
      show "length h - x < length h - b" using bx x by simp
      show "x < length h" by (rule x)
      fix y assume "y \<in> heap_reach h x"
      then have "y \<in> heap_reach h b" by (rule heap_reach_child[OF less.prems(1) in_e])
      then show "h' ! y = h ! y" by (rule less.prems(2))
    qed
    then show ?thesis by (simp add: cx)
  qed
  then have "map (\<lambda>(c, x). (c, heap_abs h' x)) (n_entry (h ! b)) =
             map (\<lambda>(c, x). (c, heap_abs h x)) (n_entry (h ! b))"
    by (rule map_cong[OF refl])
  then show ?case
    by (simp add: heap_abs_unfold[OF assms(1) less.prems(1)] heap_abs_unfold[OF assms(2) b'] same)
qed

lemma update_map_present:
  assumes "distinct (map fst es)" "k \<in> fst ` set es"
  shows "AList.update k v (map (\<lambda>(c, x). (c, g x)) es) =
           map (\<lambda>(c, x). (c, if c = k then v else g x)) es"
  using assms
proof (induction es)
  case Nil
  then show ?case by simp
next
  case (Cons e es)
  obtain c x where e: "e = (c, x)" by (cases e)
  show ?case
  proof (cases "c = k")
    case True
    then have "k \<notin> fst ` set es" using Cons.prems(1) e by auto
    then have "map (\<lambda>(c, x). (c, if c = k then v else g x)) es = map (\<lambda>(c, x). (c, g x)) es"
      by (intro map_cong refl) force
    then show ?thesis using True by (simp add: e)
  next
    case False
    then have "k \<in> fst ` set es" using Cons.prems(2) e by auto
    then show ?thesis using Cons.IH Cons.prems(1) False by (simp add: e)
  qed
qed

lemma letter_heap_abs: "letter (heap_abs h a) = n_letter (h ! a)"
  by (subst heap_abs.simps) simp

lemma heap_add_word_refines:
  assumes "heap_inv h" "a < length h" "heap_add_word h a w = (res, h')"
  shows "trie_add_word (heap_abs h a) w = (res, heap_abs h' a) \<and>
         (\<forall>x < length h. x \<notin> heap_reach h a \<longrightarrow> h' ! x = h ! x)"
  using assms
proof (induction w arbitrary: h a res h')
  case Nil
  then show ?case by (simp add: trie_add_word_Nil)
next
  case (Cons w0 rest)
  note inv = Cons.prems(1) and a = Cons.prems(2)
  let ?l = "n_letter (h ! a)"
  let ?es = "n_entry (h ! a)"
  let ?est = "map (\<lambda>(c, x). (c, heap_abs h x)) ?es"
  have U: "heap_abs h a = Trie ?l ?est" by (rule heap_abs_unfold[OF inv a])
  show ?case
  proof (cases "w0 = ?l")
    case False
    then have "res = Inl AssertionError" "h' = h"
      using Cons.prems(3) by (cases rest; simp add: heap_add_word_single heap_add_word_Cons2)+
    then show ?thesis using False trie_add_word_assert[of w0 "heap_abs h a" rest]
      by (simp add: letter_heap_abs)
  next
    case w0: True
    show ?thesis
    proof (cases rest)
      case Nil
      then have "res = Inr ()" "h' = h"
        using Cons.prems(3) w0 by (simp_all add: heap_add_word_single)
      then show ?thesis using Nil w0 trie_add_word_single[of "heap_abs h a"]
        by (simp add: letter_heap_abs)
    next
      case (Cons k r)
      define h1 where "h1 = (if map_of ?es k = None then alloc_child h a k else h)"
      have h1: "heap_inv h1" "length h \<le> length h1"
        using inv a heap_inv_alloc_child[of h a k] alloc_child_nth(1)[of a h k]
        by (auto simp: h1_def)
      have a1: "a < length h1" using h1(2) a by simp
      have "\<exists>b. map_of (n_entry (h1 ! a)) k = Some b"
      proof (cases "map_of ?es k")
        case None
        then show ?thesis
          using alloc_child_nth(2)[OF a None] by (simp add: h1_def map_of_append map_add_def)
      next
        case (Some b)
        then show ?thesis by (simp add: h1_def)
      qed
      then obtain b where b: "map_of (n_entry (h1 ! a)) k = Some b" by blast
      have kb: "(k, b) \<in> set (n_entry (h1 ! a))" using b by (rule map_of_SomeD)
      have b1: "b < length h1" and ab: "a < b"
        using heap_inv_entry(1,2)[OF h1(1) a1 kb] by simp_all
      have eq: "heap_add_word h1 b (k # r) = (res, h')"
        using w0 b Cons.prems(3) Cons by (simp add: heap_add_word_Cons2 h1_def)
      note IH = Cons.IH[unfolded Cons, OF h1(1) b1 eq]
      have tr: "trie_add_word (heap_abs h1 b) (k # r) = (res, heap_abs h' b)"
        and fr: "\<And>x. x < length h1 \<Longrightarrow> x \<notin> heap_reach h1 b \<Longrightarrow> h' ! x = h1 ! x"
        using IH by blast+
      have I': "heap_inv h'" "length h1 \<le> length h'"
        using heap_add_word_inv[OF h1(1) b1, of "k # r"] eq by simp_all
      have a': "a < length h'" using a1 I'(2) by simp
      have a_out: "a \<notin> heap_reach h1 b"
        using heap_reach_ge[OF h1(1), of a b] ab by auto
      have same_a: "h' ! a = h1 ! a" by (rule fr[OF a1 a_out])
      have U': "heap_abs h' a =
                 Trie (n_letter (h1 ! a)) (map (\<lambda>(c, x). (c, heap_abs h' x)) (n_entry (h1 ! a)))"
        using heap_abs_unfold[OF I'(1) a'] by (simp add: same_a)
      have sib: "heap_abs h' x = heap_abs h1 x"
        if "(c, x) \<in> set (n_entry (h1 ! a))" "x \<noteq> b" for c x
      proof (rule heap_abs_frame[OF h1(1) I'(1) I'(2)])
        show x1: "x < length h1" by (rule heap_inv_entry(2)[OF h1(1) a1 that(1)])
        fix y assume y: "y \<in> heap_reach h1 x"
        have "heap_reach h1 x \<inter> heap_reach h1 b = {}"
          by (rule heap_siblings_disjoint[OF h1(1) a1 that(1) kb that(2)])
        then have "y \<notin> heap_reach h1 b" using y by blast
        moreover have "y < length h1" by (rule heap_reach_bound[OF h1(1) x1 y])
        ultimately show "h' ! y = h1 ! y" using fr by blast
      qed
      have d1: "distinct (map fst (n_entry (h1 ! a)))" "distinct (map snd (n_entry (h1 ! a)))"
        using heap_inv_distinct[OF h1(1) a1] by simp_all
      have key_b: "c = k \<longleftrightarrow> x = b" if "(c, x) \<in> set (n_entry (h1 ! a))" for c x
      proof
        assume "c = k"
        then have "map_of (n_entry (h1 ! a)) k = Some x"
          using that d1(1) by (simp add: map_of_eq_Some_iff)
        then show "x = b" using b by simp
      next
        assume "x = b"
        then show "c = k" using snd_unique[OF d1(2), of c b k] that kb by simp
      qed
      show ?thesis
      proof (cases "map_of ?es k")
        case (Some b0)
        then have h1h: "h1 = h" by (simp add: h1_def)
        have b0: "b0 = b" using Some b h1h by simp
        have kin: "k \<in> fst ` set ?es" using kb h1h by force
        have "child_or_new ?est k = heap_abs h b"
          using Some b0 by (simp add: child_or_new_def map_of_map_snd)
        then have t1: "trie_add_word (heap_abs h a) (w0 # rest) =
              (res, Trie ?l (AList.update k (heap_abs h' b) ?est))"
          using tr w0 Cons h1h by (simp add: U trie_add_word_step)
        have "(\<lambda>(c, x). (c, heap_abs h' x)) e =
              (\<lambda>(c, x). (c, if c = k then heap_abs h' b else heap_abs h x)) e"
          if e: "e \<in> set ?es" for e
        proof -
          obtain c x where cx: "e = (c, x)" by (cases e)
          have in_e: "(c, x) \<in> set (n_entry (h1 ! a))" using e cx h1h by simp
          show ?thesis
          proof (cases "c = k")
            case True
            then have "x = b" using key_b[OF in_e] by simp
            then show ?thesis using True by (simp add: cx)
          next
            case False
            then have "x \<noteq> b" using key_b[OF in_e] by simp
            from sib[OF in_e this] show ?thesis using False h1h by (simp add: cx)
          qed
        qed
        then have "map (\<lambda>(c, x). (c, heap_abs h' x)) ?es =
              map (\<lambda>(c, x). (c, if c = k then heap_abs h' b else heap_abs h x)) ?es"
          by (rule map_cong[OF refl])
        also have "\<dots> = AList.update k (heap_abs h' b) ?est"
          using update_map_present[OF _ kin, of "heap_abs h' b" "heap_abs h"] d1(1) h1h
          by simp
        finally have "heap_abs h' a = Trie ?l (AList.update k (heap_abs h' b) ?est)"
          using U' h1h by simp
        moreover have "h' ! x = h ! x" if "x < length h" "x \<notin> heap_reach h a" for x
        proof -
          have "x \<notin> heap_reach h1 b"
            using that(2) heap_reach_child[OF a1 kb, of x] h1h by blast
          then show ?thesis using fr[of x] that(1) h1h by simp
        qed
        ultimately show ?thesis using t1 by simp
      next
        case None
        then have h1a: "h1 = alloc_child h a k" by (simp add: h1_def)
        note N = alloc_child_nth[OF a None]
        have ent: "n_entry (h1 ! a) = ?es @ [(k, length h)]" and let1: "n_letter (h1 ! a) = ?l"
          using N(2) by (simp_all add: h1a)
        have bl: "b = length h" using b None by (simp add: ent map_of_append map_add_def)
        have leaf: "heap_abs h1 b = Trie k []"
          using heap_abs_unfold[OF h1(1) b1] N(3) by (simp add: h1a bl)
        have "map_of ?est k = None" using None by (simp add: map_of_map_snd)
        then have con: "child_or_new ?est k = Trie k []"
          and upd: "AList.update k (heap_abs h' b) ?est = ?est @ [(k, heap_abs h' b)]"
          by (simp_all add: child_or_new_def update_new_key)
        have t1: "trie_add_word (heap_abs h a) (w0 # rest) =
              (res, Trie ?l (?est @ [(k, heap_abs h' b)]))"
          using tr w0 Cons leaf con upd by (simp add: U trie_add_word_step)
        have old: "heap_abs h' x = heap_abs h x" if e: "(c, x) \<in> set ?es" for c x
        proof -
          have x: "x < length h" and ax: "a < x"
            using heap_inv_entry(1,2)[OF inv a e] by simp_all
          have in1: "(c, x) \<in> set (n_entry (h1 ! a))" using e by (simp add: ent)
          have "heap_abs h' x = heap_abs h1 x"
            using sib[OF in1] x bl by simp
          also have "heap_abs h1 x = heap_abs h x"
          proof (rule heap_abs_frame[OF inv h1(1) h1(2) x])
            fix y assume y: "y \<in> heap_reach h x"
            have "x \<le> y" by (rule heap_reach_ge[OF inv y])
            moreover have "y < length h" by (rule heap_reach_bound[OF inv x y])
            ultimately show "h1 ! y = h ! y" using N(4)[of y] ax by (simp add: h1a)
          qed
          finally show ?thesis .
        qed
        have "(\<lambda>(c, x). (c, heap_abs h' x)) e = (\<lambda>(c, x). (c, heap_abs h x)) e"
          if e: "e \<in> set ?es" for e
        proof -
          obtain c x where cx: "e = (c, x)" by (cases e)
          have "(c, x) \<in> set ?es" using e cx by simp
          from old[OF this] show ?thesis by (simp add: cx)
        qed
        then have "map (\<lambda>(c, x). (c, heap_abs h' x)) ?es = ?est"
          by (rule map_cong[OF refl])
        then have "heap_abs h' a = Trie ?l (?est @ [(k, heap_abs h' b)])"
          using U' by (simp add: ent let1 bl)
        moreover have "h' ! x = h ! x" if "x < length h" "x \<notin> heap_reach h a" for x
        proof -
          have "x \<noteq> a" using that(2) heap_reach_self[of a h] by blast
          then have "h1 ! x = h ! x" using N(4)[OF that(1)] by (simp add: h1a)
          moreover have "x \<notin> heap_reach h1 b"
            using heap_reach_ge[OF h1(1), of x b] that(1) bl by auto
          moreover have "x < length h1" using that(1) h1(2) by simp
          ultimately show ?thesis using fr[of x] by simp
        qed
        ultimately show ?thesis using t1 by simp
      qed
    qed
  qed
qed

lemma abs_words_init: "abs_words H_init = Words_init"
  by (simp add: abs_words_def H_init_def Words_init_def heap_abs.simps)

lemma H_add_word_refines:
  assumes "hwords_inv s"
  shows "fst (H_add_word s x) = fst (add_word (abs_words s) x) \<and>
         abs_words (snd (H_add_word s x)) = snd (add_word (abs_words s) x)"
proof (cases "LETTERS_PATTERN x")
  case False
  then show ?thesis by (simp add: H_add_word_def add_word_def)
next
  case True
  have inv: "heap_inv (hw_store s)" and a: "hw_trie s < length (hw_store s)"
    using assms by (simp_all add: hwords_inv_def)
  obtain res h' where r: "heap_add_word (hw_store s) (hw_trie s) (pad_word x) = (res, h')"
    by (cases "heap_add_word (hw_store s) (hw_trie s) (pad_word x)")
  from heap_add_word_refines[OF inv a r]
  have "trie_add_word (heap_abs (hw_store s) (hw_trie s)) (pad_word x) =
          (res, heap_abs h' (hw_trie s))"
    by blast
  then show ?thesis using True r
    by (simp add: H_add_word_def add_word_def abs_words_def)
qed

lemma H_contains_refines:
  assumes "hwords_inv s"
  shows "fst (H_contains s x) = fst (contains (abs_words s) x)"
proof -
  have inv: "heap_inv (hw_store s)" and a: "hw_trie s < length (hw_store s)"
    using assms by (simp_all add: hwords_inv_def)
  show ?thesis
    using heap_contains_refines[OF inv a, of "pad_word x"]
    by (simp add: H_contains_def contains_def abs_words_def)
qed

lemma H_search_refines:
  assumes "hwords_inv s"
  shows "fst (H_search s x) = Some (fst (search (abs_words s) x))"
proof -
  have inv: "heap_inv (hw_store s)" and a: "hw_trie s < length (hw_store s)"
    using assms by (simp_all add: hwords_inv_def)
  show ?thesis
    using heap_search_refines[OF inv a, of "pad_word x" x]
    by (simp add: H_search_def search_def abs_words_def)
qed

lemma hdict_state_abs: "hdict_state s \<Longrightarrow> \<exists>ws. dict_state (abs_words s) ws"
proof (induction rule: hdict_state.induct)
  case hs_init
  then show ?case using ds_init by (auto simp: abs_words_init)
next
  case (hs_add s x)
  then obtain ws where ws: "dict_state (abs_words s) ws" by blast
  have inv: "hwords_inv s" by (rule hdict_state_inv[OF hs_add.hyps])
  have eq: "abs_words (snd (H_add_word s x)) = snd (add_word (abs_words s) x)"
    using H_add_word_refines[OF inv] by blast
  show ?case
  proof (cases "fst (add_word (abs_words s) x)")
    case (Inl e)
    then have "add_word (abs_words s) x = (Inl e, snd (add_word (abs_words s) x))"
      by (metis prod.collapse)
    from ds_add_raise[OF ws this] show ?thesis unfolding eq by blast
  next
    case (Inr u)
    then have "add_word (abs_words s) x = (Inr (), snd (add_word (abs_words s) x))"
      by (metis prod.collapse old.unit.exhaust)
    from ds_add[OF ws this] show ?thesis unfolding eq by blast
  qed
next
  case (hs_contains s x)
  then show ?case by (simp add: H_contains_state)
next
  case (hs_search s x)
  then show ?case by (simp add: H_search_state)
qed

section \<open>The claims\<close>

text \<open>
  Claim C1. In every dictionary state with inserted words \<open>ws\<close>, and for every prefix
  \<open>p\<close> that passes the check of \<open>search\<close> (every string of lowercase letters does,
  lemma \<open>letters_LETTERS_PATTERN\<close>), the call \<open>search(p)\<close> returns a list whose
  elements are exactly the inserted words that have \<open>p\<close> as a literal prefix, and leaves
  the object as it was. For the empty prefix these are all inserted words (the empty word
  among them when it was inserted), and when no inserted word starts with \<open>p\<close> the list
  is empty.
\<close>

theorem search_exact_prefix_set:
  assumes "dict_state s ws" and "LETTERS_PATTERN p"
  shows "\<exists>xs. search s p = (Inr xs, s) \<and> set xs = {w \<in> set ws. prefix p w} \<and>
           (p = [] \<longrightarrow> set xs = set ws) \<and>
           ((\<forall>w \<in> set ws. \<not> prefix p w) \<longrightarrow> xs = [])"
proof -
  from search_correct[OF dict_state_inv[OF assms(1)] assms(2)]
  obtain xs where xs: "search s p = (Inr xs, s)" "set xs = {w \<in> set ws. prefix p w}"
    by blast
  have a: "p = [] \<longrightarrow> set xs = set ws" using xs(2) by simp
  have b: "(\<forall>w \<in> set ws. \<not> prefix p w) \<longrightarrow> xs = []"
  proof
    assume "\<forall>w \<in> set ws. \<not> prefix p w"
    then have "set xs = {}" unfolding xs(2) by simp
    then show "xs = []" by simp
  qed
  show ?thesis
    by (rule exI[of _ xs]) (intro conjI xs a b)
qed

theorem search_exact_prefix_set_witness:
  "dict_state example_words [''mad'', ''madmax'', ''''] \<and> LETTERS_PATTERN ''ma'' \<and>
   (\<exists>xs. search example_words ''ma'' = (Inr xs, example_words) \<and>
         set xs = {''mad'', ''madmax''})"
proof -
  note h1 = example_words_state and h2 = LETTERS_PATTERN_examples(4)
  from search_exact_prefix_set[OF h1 h2] obtain xs where
    "search example_words ''ma'' = (Inr xs, example_words)"
    "set xs = {w \<in> set [''mad'', ''madmax'', '''']. prefix ''ma'' w}"
    by blast
  then have "\<exists>xs. search example_words ''ma'' = (Inr xs, example_words) \<and>
         set xs = {''mad'', ''madmax''}"
    unfolding prefix_ma_examples by blast
  then show ?thesis using h1 h2 by (intro conjI)
qed

text \<open>
  Claim C2. In every dictionary state and for every word \<open>w\<close> that passes the check of
  \<open>add_word\<close> (every string of lowercase letters does), the call \<open>add_word(w)\<close> returns normally and \<open>contains(w)\<close> on the
  resulting object returns true.
\<close>

theorem contains_after_add_word:
  assumes "dict_state s ws" and "LETTERS_PATTERN w"
  shows "\<exists>s'. add_word s w = (Inr (), s') \<and> contains s' w = (Inr True, s')"
proof -
  from add_word_ok[OF dict_state_inv[OF assms(1)] assms(2)]
  obtain s' where s': "add_word s w = (Inr (), s')" "words_inv s' (ws @ [w])" by blast
  have "contains s' w = (Inr (\<exists>v \<in> set (ws @ [w]). pattern_matches w v), s')"
    by (rule contains_correct[OF s'(2) LETTERS_PATTERN_imp_DOT[OF assms(2)]])
  moreover have "\<exists>v \<in> set (ws @ [w]). pattern_matches w v"
    using pattern_matches_refl[of w] by auto
  ultimately show ?thesis using s'(1) by simp
qed

theorem contains_after_add_word_witness:
  "dict_state example_words [''mad'', ''madmax'', ''''] \<and> LETTERS_PATTERN ''bad'' \<and>
   (\<exists>s'. add_word example_words ''bad'' = (Inr (), s') \<and> contains s' ''bad'' = (Inr True, s'))"
  by (rule conjI[OF example_words_state conjI[OF LETTERS_PATTERN_examples(5)
        contains_after_add_word[OF example_words_state LETTERS_PATTERN_examples(5)]]])

text \<open>
  Claim C3. In every dictionary state with inserted words \<open>ws\<close>, and for every pattern
  \<open>p\<close> of letters and dots, \<open>contains(p)\<close> returns true if and only if some inserted
  word has the length of \<open>p\<close> and agrees with \<open>p\<close> wherever \<open>p\<close> has a letter. A dot
  stands for one character of the word and never for the end marker: the witness below
  is the case of the claim, \<open>contains(".")\<close> after inserting only the empty word.
\<close>

theorem contains_iff_agrees:
  assumes "dict_state s ws" and "list_all lower_letter_or_dot p"
  shows "contains s p = (Inr (\<exists>w \<in> set ws. agrees_with_pattern p w), s)"
proof -
  have "pattern_matches p w = agrees_with_pattern p w" for w
    by (rule pattern_matches_agrees[OF assms(2)])
  then show ?thesis
    using contains_correct[OF dict_state_inv[OF assms(1)]
        letters_dots_LETTERS_AND_DOT_PATTERN[OF assms(2)]]
    by simp
qed

theorem contains_iff_agrees_witness:
  "dict_state (after_adds ['''']) [''''] \<and> list_all lower_letter_or_dot ''.'' \<and>
   contains (after_adds ['''']) ''.'' = (Inr False, after_adds [''''])"
proof -
  have "\<not> (\<exists>w \<in> set ['''']. agrees_with_pattern ''.'' w)"
    by (simp add: agrees_with_pattern_def)
  then have "contains (after_adds ['''']) ''.'' = (Inr False, after_adds [''''])"
    using contains_iff_agrees[OF only_empty_word_state dot_pattern_example] by (simp only:)
  then show ?thesis
    using only_empty_word_state dot_pattern_example by (intro conjI)
qed

text \<open>
  Claim C4 says that \<open>add_word\<close> and \<open>search\<close> raise on every input with a character
  outside a-z, and \<open>contains\<close> on every input with a character outside a-z and the dot.
  The code does not: the anchor \<open>$\<close> of both patterns also matches before a final newline.
  The theorem evaluates the three methods on the one-character string holding a newline,
  on a new object: none raises, and \<open>add_word\<close> stores the string.
\<close>

theorem add_word_accepts_final_newline:
  "\<not> lower_letter (CHR 0x0A) \<and>
   add_word Words_init [CHR 0x0A] =
     (Inr (), \<lparr>w_trie = Trie FIRST [(CHR 0x0A, Trie (CHR 0x0A) [(LAST, Trie LAST [])])]\<rparr>) \<and>
   fst (search Words_init [CHR 0x0A]) = Inr [] \<and>
   fst (contains Words_init [CHR 0x0A]) = Inr False"
  by (simp add: add_word_def search_def contains_def LETTERS_PATTERN_def
      LETTERS_AND_DOT_PATTERN_def pad_word_def Words_init_def lower_letter_def
      trie_add_word.simps FIRST_def LAST_def DOT_def)

text \<open>
  Claim C5. In every dictionary state and for every word \<open>w\<close> that passes the check of
  \<open>add_word\<close>, a second \<open>add_word(w)\<close> leaves the object exactly as the first one left
  it, so no node is added twice and every \<open>contains\<close> and \<open>search\<close> query returns the
  same after two insertions as after one.
\<close>

theorem add_word_idempotent:
  assumes "dict_state s ws" and "LETTERS_PATTERN w"
  shows "\<exists>s1 s2. add_word s w = (Inr (), s1) \<and> add_word s1 w = (Inr (), s2) \<and> s2 = s1 \<and>
           (\<forall>q. fst (contains s2 q) = fst (contains s1 q)) \<and>
           (\<forall>q. fst (search s2 q) = fst (search s1 q))"
proof -
  from add_word_ok[OF dict_state_inv[OF assms(1)] assms(2)]
  obtain s1 where s1: "add_word s w = (Inr (), s1)" by blast
  from add_word_twice[OF this] s1 show ?thesis by simp
qed

theorem add_word_idempotent_witness:
  "dict_state example_words [''mad'', ''madmax'', ''''] \<and> LETTERS_PATTERN ''mad'' \<and>
   (\<exists>s1 s2. add_word example_words ''mad'' = (Inr (), s1) \<and>
       add_word s1 ''mad'' = (Inr (), s2) \<and> s2 = s1 \<and>
       (\<forall>q. fst (contains s2 q) = fst (contains s1 q)) \<and>
       (\<forall>q. fst (search s2 q) = fst (search s1 q)))"
  by (rule conjI[OF example_words_state conjI[OF LETTERS_PATTERN_examples(1)
        add_word_idempotent[OF example_words_state LETTERS_PATTERN_examples(1)]]])

text \<open>
  Claim C6. In every dictionary state, two different words that are both among the
  inserted words (in either order, with any other calls between them) are both found by
  \<open>contains\<close>, and they are still found after any further call of \<open>add_word\<close>.
\<close>

theorem inserted_words_no_interference:
  assumes "dict_state s ws" and "w1 \<in> set ws" and "w2 \<in> set ws" and "w1 \<noteq> w2"
  shows "contains s w1 = (Inr True, s) \<and> contains s w2 = (Inr True, s) \<and>
         (\<forall>w3. fst (contains (snd (add_word s w3)) w1) = Inr True \<and>
               fst (contains (snd (add_word s w3)) w2) = Inr True)"
proof -
  have member: "contains s' v = (Inr True, s')" if "words_inv s' ws'" "v \<in> set ws'" for s' ws' v
  proof -
    have "LETTERS_PATTERN v" using that by (simp add: words_inv_def)
    from contains_correct[OF that(1) LETTERS_PATTERN_imp_DOT[OF this]]
    show ?thesis using that(2) pattern_matches_refl[of v] by auto
  qed
  have inv: "words_inv s ws" by (rule dict_state_inv[OF assms(1)])
  have later: "fst (contains (snd (add_word s w3)) v) = Inr True" if "v \<in> set ws" for w3 v
  proof (cases "LETTERS_PATTERN w3")
    case True
    from add_word_ok[OF inv True] obtain s' where
      "add_word s w3 = (Inr (), s')" "words_inv s' (ws @ [w3])" by blast
    then show ?thesis using member[of s' "ws @ [w3]" v] that by simp
  next
    case False
    then show ?thesis using member[OF inv that] by (simp add: add_word_invalid)
  qed
  have "contains s w1 = (Inr True, s)" by (rule member[OF inv assms(2)])
  moreover have "contains s w2 = (Inr True, s)" by (rule member[OF inv assms(3)])
  ultimately show ?thesis using later[OF assms(2)] later[OF assms(3)] by blast
qed

theorem inserted_words_no_interference_witness:
  "dict_state example_words [''mad'', ''madmax'', ''''] \<and>
   ''mad'' \<in> set [''mad'', ''madmax'', ''''] \<and> ''madmax'' \<in> set [''mad'', ''madmax'', ''''] \<and>
   ''mad'' \<noteq> ''madmax'' \<and>
   contains example_words ''mad'' = (Inr True, example_words) \<and>
   contains example_words ''madmax'' = (Inr True, example_words)"
proof -
  have a: "''mad'' \<in> set [''mad'', ''madmax'', '''']" by simp
  have b: "''madmax'' \<in> set [''mad'', ''madmax'', '''']" by simp
  have c: "''mad'' \<noteq> ''madmax''" by simp
  note r = inserted_words_no_interference[OF example_words_state a b c]
  have "contains example_words ''mad'' = (Inr True, example_words)"
    by (rule r[THEN conjunct1])
  moreover have "contains example_words ''madmax'' = (Inr True, example_words)"
    by (rule r[THEN conjunct2, THEN conjunct1])
  ultimately show ?thesis using example_words_state a b c by (intro conjI)
qed

text \<open>
  Claim C7. In every state that public calls can reach, and after any further call of
  \<open>add_word\<close>, \<open>contains\<close> or \<open>search\<close> with any argument, the objects form the
  structure of the specification: the root carries the start marker, the child under a
  key carries that key as its letter at every reachable node, and the nodes form a strict
  tree (every node but the root has exactly one parent and one key leading to it, the
  root has none, and there is no cycle).
\<close>

theorem public_ops_keep_trie_structure:
  assumes "hdict_state s"
  shows "trie_structure s \<and> trie_structure (snd (H_add_word s x)) \<and>
         trie_structure (snd (H_contains s x)) \<and> trie_structure (snd (H_search s x))"
proof -
  have "hwords_inv s" by (rule hdict_state_inv[OF assms])
  then have "trie_structure s" "trie_structure (snd (H_add_word s x))"
    using hwords_inv_trie_structure H_add_word_inv by blast+
  then show ?thesis by (simp add: H_contains_state H_search_state)
qed

theorem public_ops_keep_trie_structure_witness:
  "hdict_state H_example \<and> trie_structure H_example \<and>
   trie_structure (snd (H_add_word H_example ''ad'')) \<and>
   trie_structure (snd (H_contains H_example ''a.'')) \<and>
   trie_structure (snd (H_search H_example ''a''))"
proof -
  note r1 = public_ops_keep_trie_structure[OF H_example_state, of "''ad''"]
  note r2 = public_ops_keep_trie_structure[OF H_example_state, of "''a.''"]
  note r3 = public_ops_keep_trie_structure[OF H_example_state, of "''a''"]
  show ?thesis
    using H_example_state r1[THEN conjunct1] r1[THEN conjunct2, THEN conjunct1]
      r2[THEN conjunct2, THEN conjunct2, THEN conjunct1]
      r3[THEN conjunct2, THEN conjunct2, THEN conjunct2]
    by (intro conjI)
qed

text \<open>
  Claim C8. In every dictionary state and for every argument, a public method either
  returns normally or raises \<open>WordsError\<close> from its own check: with an argument that
  passes the check it returns normally, and it never ends with a failed assertion, an
  index out of range or a missing key. In the model each \<open>assert\<close> and each read of
  \<open>word[0]\<close> and \<open>word[1]\<close> of every recursive call is a branch that would end the call
  with that exception.
\<close>

theorem public_ops_no_internal_error:
  assumes "dict_state s ws"
  shows "(LETTERS_PATTERN x \<longrightarrow> fst (add_word s x) = Inr ()) \<and>
         (LETTERS_AND_DOT_PATTERN x \<longrightarrow> (\<exists>b. fst (contains s x) = Inr b)) \<and>
         (LETTERS_PATTERN x \<longrightarrow> (\<exists>xs. fst (search s x) = Inr xs)) \<and>
         (\<forall>e \<in> {AssertionError, IndexError, KeyError}.
            fst (add_word s x) \<noteq> Inl e \<and> fst (contains s x) \<noteq> Inl e \<and>
            fst (search s x) \<noteq> Inl e)"
proof -
  have inv: "words_inv s ws" by (rule dict_state_inv[OF assms])
  have a: "fst (add_word s x) = Inr ()" if "LETTERS_PATTERN x"
    using add_word_ok[OF inv that] by auto
  have c: "\<exists>b. fst (contains s x) = Inr b" if "LETTERS_AND_DOT_PATTERN x"
    using contains_correct[OF inv that] by simp
  have r: "\<exists>xs. fst (search s x) = Inr xs" if "LETTERS_PATTERN x"
    using search_correct[OF inv that] by auto
  have a': "fst (add_word s x) \<noteq> Inl e" if "e \<in> {AssertionError, IndexError, KeyError}" for e
  proof (cases "LETTERS_PATTERN x")
    case True
    then show ?thesis using a by simp
  next
    case False
    then show ?thesis using that by (auto simp: add_word_invalid BadInputLetters_def)
  qed
  have c': "fst (contains s x) \<noteq> Inl e" if "e \<in> {AssertionError, IndexError, KeyError}" for e
  proof (cases "LETTERS_AND_DOT_PATTERN x")
    case True
    then show ?thesis using c by auto
  next
    case False
    then show ?thesis using that by (auto simp: contains_invalid BadInputLettersAndDot_def)
  qed
  have r': "fst (search s x) \<noteq> Inl e" if "e \<in> {AssertionError, IndexError, KeyError}" for e
  proof (cases "LETTERS_PATTERN x")
    case True
    then show ?thesis using r by auto
  next
    case False
    then show ?thesis using that by (auto simp: search_invalid BadInputLetters_def)
  qed
  show ?thesis using a c r a' c' r' by blast
qed

theorem public_ops_no_internal_error_witness:
  "dict_state example_words [''mad'', ''madmax'', ''''] \<and>
   fst (add_word example_words ''ma'') = Inr () \<and>
   fst (add_word example_words ''ma'') \<noteq> Inl AssertionError \<and>
   fst (contains example_words ''ma'') \<noteq> Inl IndexError \<and>
   fst (search example_words ''ma'') \<noteq> Inl IndexError"
proof -
  note r = public_ops_no_internal_error[OF example_words_state, of "''ma''"]
  have "fst (add_word example_words ''ma'') = Inr ()"
    using r LETTERS_PATTERN_examples(4) by blast
  moreover have "fst (add_word example_words ''ma'') \<noteq> Inl AssertionError"
    using r by blast
  moreover have "fst (contains example_words ''ma'') \<noteq> Inl IndexError"
    using r by blast
  moreover have "fst (search example_words ''ma'') \<noteq> Inl IndexError"
    using r by blast
  ultimately show ?thesis using example_words_state by (intro conjI)
qed

text \<open>
  Claim C9. The object is determined by the sequence of successful \<open>add_word\<close> calls:
  two dictionary states with the same inserted words in the same order return the same
  list for the same prefix, elements and order alike; a second \<open>search\<close> right after
  the first returns that list again; and every returned string is an inserted word that
  starts with the prefix.
\<close>

theorem search_deterministic:
  assumes "dict_state s1 ws" and "dict_state s2 ws" and "LETTERS_PATTERN p"
  shows "\<exists>xs. search s1 p = (Inr xs, s1) \<and> search s2 p = (Inr xs, s2) \<and>
           fst (search (snd (search s1 p)) p) = Inr xs \<and>
           (\<forall>x \<in> set xs. x \<in> set ws \<and> prefix p x)"
proof -
  have eq: "s2 = s1"
    using dict_state_after_adds[OF assms(1)] dict_state_after_adds[OF assms(2)] by simp
  from search_correct[OF dict_state_inv[OF assms(1)] assms(3)]
  obtain xs where xs: "search s1 p = (Inr xs, s1)" "set xs = {w \<in> set ws. prefix p w}"
    by blast
  have a: "search s2 p = (Inr xs, s2)" using xs(1) eq by simp
  have b: "fst (search (snd (search s1 p)) p) = Inr xs" using xs(1) by simp
  have c: "\<forall>x \<in> set xs. x \<in> set ws \<and> prefix p x" unfolding xs(2) by simp
  show ?thesis by (rule exI[of _ xs]) (intro conjI xs(1) a b c)
qed

theorem search_deterministic_witness:
  "dict_state example_words [''mad'', ''madmax'', ''''] \<and> LETTERS_PATTERN ''ma'' \<and>
   (\<exists>xs. search example_words ''ma'' = (Inr xs, example_words) \<and>
         fst (search (snd (search example_words ''ma'')) ''ma'') = Inr xs \<and>
         set xs \<subseteq> {w \<in> set [''mad'', ''madmax'', '''']. prefix ''ma'' w})"
proof -
  note h1 = example_words_state and h2 = LETTERS_PATTERN_examples(4)
  from search_deterministic[OF h1 h1 h2] obtain xs where
    "search example_words ''ma'' = (Inr xs, example_words)"
    "fst (search (snd (search example_words ''ma'')) ''ma'') = Inr xs"
    "\<forall>x \<in> set xs. x \<in> set [''mad'', ''madmax'', ''''] \<and> prefix ''ma'' x"
    by blast
  then have "\<exists>xs. search example_words ''ma'' = (Inr xs, example_words) \<and>
         fst (search (snd (search example_words ''ma'')) ''ma'') = Inr xs \<and>
         set xs \<subseteq> {w \<in> set [''mad'', ''madmax'', '''']. prefix ''ma'' w}"
    by blast
  then show ?thesis using h1 h2 by (intro conjI)
qed

text \<open>
  Claim C10. In every dictionary state and for every argument, valid or not, \<open>contains\<close>
  and \<open>search\<close> return the object unchanged, \<open>add_word\<close> with an argument that fails
  its check does so as well, and a list returned by \<open>search\<close> has no repeated element.
\<close>

theorem contains_search_read_only:
  assumes "dict_state s ws"
  shows "snd (contains s x) = s \<and> snd (search s x) = s \<and>
         (\<not> LETTERS_PATTERN x \<longrightarrow> snd (add_word s x) = s) \<and>
         (\<forall>xs. fst (search s x) = Inr xs \<longrightarrow> distinct xs)"
proof -
  have d: "\<forall>xs. fst (search s x) = Inr xs \<longrightarrow> distinct xs"
  proof (cases "LETTERS_PATTERN x")
    case True
    from search_correct[OF dict_state_inv[OF assms] True] show ?thesis by auto
  next
    case False
    then show ?thesis by (simp add: search_invalid)
  qed
  have a: "\<not> LETTERS_PATTERN x \<longrightarrow> snd (add_word s x) = s"
    by (simp add: add_word_invalid)
  show ?thesis by (intro conjI contains_state search_state a d)
qed

theorem contains_search_read_only_witness:
  "dict_state example_words [''mad'', ''madmax'', ''''] \<and>
   snd (contains example_words ''m.d'') = example_words \<and>
   snd (search example_words ''ma'') = example_words \<and>
   snd (add_word example_words ''Ma'') = example_words \<and>
   (\<exists>xs. fst (search example_words ''ma'') = Inr xs \<and> distinct xs)"
proof -
  note r1 = contains_search_read_only[OF example_words_state, of "''m.d''"]
  note r2 = contains_search_read_only[OF example_words_state, of "''ma''"]
  note r3 = contains_search_read_only[OF example_words_state, of "''Ma''"]
  have a: "snd (add_word example_words ''Ma'') = example_words"
    using r3 not_LETTERS_PATTERN_example by blast
  obtain xs where xs: "search example_words ''ma'' = (Inr xs, example_words)"
    using search_correct[OF dict_state_inv[OF example_words_state] LETTERS_PATTERN_examples(4)]
    by blast
  then have "distinct xs" using r2 by simp
  then have d: "\<exists>xs. fst (search example_words ''ma'') = Inr xs \<and> distinct xs"
    using xs by simp
  show ?thesis
    using example_words_state r1[THEN conjunct1] r2[THEN conjunct2, THEN conjunct1] a d
    by (intro conjI)
qed

end
